theory Spec2Isabelle
  imports Main "HOL-Library.Word"
begin

unbundle bit_operations_syntax

section \<open>Bytes, buffers and little-endian access\<close>

text \<open>
  A buffer is a list of bytes and a pointer into it is an index. The caller of every
  function below owns buffers that are large enough; the theorems state that as a
  hypothesis on the lengths. Outside that hypothesis the lists do what lists do: a byte
  past the end of a list reads as zero in \<open>Load64\<close> and is not written by
  \<open>store_bytes\<close>.
\<close>

type_synonym byte = "8 word"

text \<open>\<open>absl::little_endian::Load64(p)\<close>: the eight bytes at \<open>p\<close>, lowest first.\<close>

definition Load64 :: "byte list \<Rightarrow> nat \<Rightarrow> 64 word" where
  "Load64 mem p = word_of_int (horner_sum uint (2 ^ 8) (take 8 (drop p mem)))"

text \<open>The \<open>n\<close> low bytes of a 64-bit value as they lie in memory on a little-endian host.\<close>

definition le_bytes :: "nat \<Rightarrow> 64 word \<Rightarrow> byte list" where
  "le_bytes n v = map (\<lambda>k. ucast (drop_bit (8 * k) v)) [0..<n]"

text \<open>\<open>memcpy(dst + p, bytes, length bytes)\<close> into a buffer.\<close>

definition store_bytes :: "byte list \<Rightarrow> nat \<Rightarrow> byte list \<Rightarrow> byte list" where
  "store_bytes buf p bs = take p buf @ take (length buf - p) bs @ drop (p + length bs) buf"

text \<open>
  How a call stops short: a failed \<open>DCHECK\<close>, which is taken as compiled in, a failed
  \<open>CHECK\<close> or a \<open>LOG(FATAL)\<close>, an allocation without memory, an access outside a live
  allocation.
\<close>

datatype error = CheckFailed | Fatal | OutOfMemory | BadAccess

section \<open>The 128-bit register\<close>

text \<open>\<open>__m128i\<close> is a vector of two 64-bit integers.\<close>

record m128i =
  lane0 :: "64 word"
  lane1 :: "64 word"

definition mm_setzero_si128 :: m128i where
  "mm_setzero_si128 = \<lparr>lane0 = 0, lane1 = 0\<rparr>"

definition mm_set1_epi64x :: "64 word \<Rightarrow> m128i" where
  "mm_set1_epi64x v = \<lparr>lane0 = v, lane1 = v\<rparr>"

definition mm_loadu_si128 :: "byte list \<Rightarrow> nat \<Rightarrow> m128i" where
  "mm_loadu_si128 mem p = \<lparr>lane0 = Load64 mem p, lane1 = Load64 mem (p + 8)\<rparr>"

definition mm_storeu_si128 :: "byte list \<Rightarrow> nat \<Rightarrow> m128i \<Rightarrow> byte list" where
  "mm_storeu_si128 buf p r = store_bytes buf p (le_bytes 8 (lane0 r) @ le_bytes 8 (lane1 r))"

definition mm_or_si128 :: "m128i \<Rightarrow> m128i \<Rightarrow> m128i" where
  "mm_or_si128 a b = \<lparr>lane0 = lane0 a OR lane0 b, lane1 = lane1 a OR lane1 b\<rparr>"

definition mm_and_si128 :: "m128i \<Rightarrow> m128i \<Rightarrow> m128i" where
  "mm_and_si128 a b = \<lparr>lane0 = lane0 a AND lane0 b, lane1 = lane1 a AND lane1 b\<rparr>"

definition mm_srli_epi64 :: "m128i \<Rightarrow> nat \<Rightarrow> m128i" where
  "mm_srli_epi64 a n = \<lparr>lane0 = drop_bit n (lane0 a), lane1 = drop_bit n (lane1 a)\<rparr>"

definition mm_slli_epi64 :: "m128i \<Rightarrow> nat \<Rightarrow> m128i" where
  "mm_slli_epi64 a n = \<lparr>lane0 = push_bit n (lane0 a), lane1 = push_bit n (lane1 a)\<rparr>"

text \<open>\<open>_mm_movemask_epi8\<close>: bit \<open>k\<close> of the result is the top bit of byte \<open>k\<close>.\<close>

definition mm_movemask_epi8 :: "m128i \<Rightarrow> 32 word" where
  "mm_movemask_epi8 r =
     horner_sum of_bool 2
       (map (\<lambda>k. bit (if k < 8 then lane0 r else lane1 r) (8 * (k mod 8) + 7)) [0..<16])"

section \<open>validate_ascii_fast\<close>

text \<open>The loop \<open>for (; i <= len - 16; i += 16)\<close>, entered only when \<open>len >= 16\<close>.\<close>

function validate_blocks :: "byte list \<Rightarrow> nat \<Rightarrow> nat \<Rightarrow> m128i \<Rightarrow> nat \<times> m128i" where
  "validate_blocks src len i has_error =
     (if i \<le> len - 16
      then validate_blocks src len (i + 16) (mm_or_si128 has_error (mm_loadu_si128 src i))
      else (i, has_error))"
  by pat_completeness auto
termination
  by (relation "measure (\<lambda>(src, len, i, has_error). len + 16 - i)") auto

text \<open>The tail loop \<open>for (; i < len; i++) tail_has_error |= src[i]\<close>.\<close>

function validate_tail :: "byte list \<Rightarrow> nat \<Rightarrow> nat \<Rightarrow> byte \<Rightarrow> byte" where
  "validate_tail src len i tail_has_error =
     (if i < len then validate_tail src len (i + 1) (tail_has_error OR src ! i)
      else tail_has_error)"
  by pat_completeness auto
termination
  by (relation "measure (\<lambda>(src, len, i, t). len - i)") auto

text \<open>
  \<open>tail_has_error & 0x80\<close> is computed on \<open>int\<close>: the \<open>char\<close> is sign-extended first
  (x86-64, where \<open>char\<close> is signed).
\<close>

definition validate_ascii_fast :: "byte list \<Rightarrow> nat \<Rightarrow> bool" where
  "validate_ascii_fast src len =
     (let (i, has_error) =
            (if len \<ge> 16 then validate_blocks src len 0 mm_setzero_si128
             else (0, mm_setzero_si128));
          error_mask = mm_movemask_epi8 has_error;
          tail_has_error = validate_tail src len i 0;
          error_mask = error_mask OR ((scast tail_has_error :: 32 word) AND 0x80)
      in error_mask = 0)"

section \<open>ascii_pack\<close>

text \<open>
  The inner loop \<open>for (unsigned i = 1; i <= 7; ++i) { val >>= 1; dest |= (val & (0x7FUL << 7 * i)); }\<close>
  on 64-bit unsigned values.
\<close>

function pack_shifts :: "nat \<Rightarrow> 64 word \<Rightarrow> 64 word \<Rightarrow> 64 word" where
  "pack_shifts i val dest =
     (if i \<le> 7
      then let val' = drop_bit 1 val
           in pack_shifts (i + 1) val' (dest OR (val' AND push_bit (7 * i) 0x7F))
      else dest)"
  by pat_completeness auto
termination
  by (relation "measure (\<lambda>(i, val, dest). 8 - i)") auto

text \<open>
  The loop \<open>while (ascii + 8 <= end)\<close>: \<open>ascii\<close> and \<open>b\<close> are the two moving pointers,
  \<open>lim\<close> is \<open>end\<close>. It returns the pointers and the output buffer it leaves.
\<close>

function ascii_pack_blocks ::
  "byte list \<Rightarrow> nat \<Rightarrow> nat \<Rightarrow> byte list \<Rightarrow> nat \<Rightarrow> nat \<times> nat \<times> byte list" where
  "ascii_pack_blocks mem ascii lim bin b =
     (if ascii + 8 \<le> lim
      then let val = Load64 mem ascii;
               dest = pack_shifts 1 val (val AND 0xFF)
           in ascii_pack_blocks mem (ascii + 8) lim (store_bytes bin b (le_bytes 7 dest)) (b + 7)
      else (ascii, b, bin))"
  by pat_completeness auto
termination
  by (relation "measure (\<lambda>(mem, ascii, lim, bin, b). lim - ascii)") auto

text \<open>The epilogue \<open>while (ascii < end) *bin++ = *ascii++\<close>.\<close>

function ascii_pack_tail :: "byte list \<Rightarrow> nat \<Rightarrow> nat \<Rightarrow> byte list \<Rightarrow> nat \<Rightarrow> byte list" where
  "ascii_pack_tail mem ascii lim bin b =
     (if ascii < lim then ascii_pack_tail mem (ascii + 1) lim (bin[b := mem ! ascii]) (b + 1)
      else bin)"
  by pat_completeness auto
termination
  by (relation "measure (\<lambda>(mem, ascii, lim, bin, b). lim - ascii)") auto

text \<open>
  \<open>ascii_pack(ascii, len, bin)\<close>, the pointer \<open>ascii\<close> being index \<open>ascii\<close> of \<open>mem\<close> and
  the pointer \<open>bin\<close> index \<open>b\<close> of the output buffer. The result is the output buffer.
\<close>

definition ascii_pack :: "byte list \<Rightarrow> nat \<Rightarrow> nat \<Rightarrow> byte list \<Rightarrow> nat \<Rightarrow> byte list" where
  "ascii_pack mem ascii len bin b =
     (let lim = ascii + len;
          (ascii', b', bin') = ascii_pack_blocks mem ascii lim bin b
      in ascii_pack_tail mem ascii' lim bin' b')"

section \<open>ascii_pack_simd\<close>

text \<open>
  The inner loop of the vector version. Each intrinsic returns its result; the three
  statements of the body are
  \<open>_mm_srli_epi64(val, 1);\<close>, \<open>__m128i shmask = _mm_slli_epi64(mask, 7 * i);\<close> and
  \<open>_mm_or_si128(dest, _mm_and_si128(val, shmask));\<close>. The first and the third do not
  assign what they compute, so \<open>val\<close> and \<open>dest\<close> leave the loop as they entered it.
\<close>

function simd_shifts :: "nat \<Rightarrow> m128i \<Rightarrow> m128i \<Rightarrow> m128i \<Rightarrow> m128i" where
  "simd_shifts i msk val dest =
     (if i \<le> 7
      then let discarded1 = mm_srli_epi64 val 1;
               shmask = mm_slli_epi64 msk (7 * i);
               discarded2 = mm_or_si128 dest (mm_and_si128 val shmask)
           in simd_shifts (i + 1) msk val dest
      else dest)"
  by pat_completeness auto
termination
  by (relation "measure (\<lambda>(i, msk, val, dest). 8 - i)") auto

text \<open>
  The loop \<open>while (ascii <= end)\<close> with \<open>end = ascii + len - 32\<close>, which lies before the
  buffer when \<open>len < 32\<close>: \<open>lim32\<close> is an integer. \<open>memcpy(bin + 7, bin + 8, 7)\<close> reads
  its seven source bytes and then writes them. After the loop, \<open>DCHECK(ascii < end)\<close>
  and the call of \<open>ascii_pack\<close> on what is left.
\<close>

function ascii_pack_simd_blocks ::
  "byte list \<Rightarrow> nat \<Rightarrow> int \<Rightarrow> m128i \<Rightarrow> byte list \<Rightarrow> nat \<Rightarrow> nat \<times> nat \<times> byte list" where
  "ascii_pack_simd_blocks mem ascii lim32 msk bin b =
     (if int ascii \<le> lim32
      then let val = mm_loadu_si128 mem ascii;
               dest = mm_and_si128 val msk;
               dest = simd_shifts 1 msk val dest;
               bin = mm_storeu_si128 bin b dest;
               bin = store_bytes bin (b + 7) (take 7 (drop (b + 8) bin))
           in ascii_pack_simd_blocks mem (ascii + 16) lim32 msk bin (b + 14)
      else (ascii, b, bin))"
  by pat_completeness auto
termination
  by (relation "measure (\<lambda>(mem, ascii, lim32, msk, bin, b). nat (lim32 + 1 - int ascii))") auto

definition ascii_pack_simd ::
  "byte list \<Rightarrow> nat \<Rightarrow> nat \<Rightarrow> byte list \<Rightarrow> nat \<Rightarrow> error + byte list" where
  "ascii_pack_simd mem ascii len bin b =
     (let msk = mm_set1_epi64x 0x7F;
          lim32 = int ascii + int len - 32;
          (ascii', b', bin') = ascii_pack_simd_blocks mem ascii lim32 msk bin b;
          lim = lim32 + 32
      in if int ascii' < lim
         then Inr (ascii_pack mem ascii' (nat (lim - int ascii')) bin' b')
         else Inl CheckFailed)"

section \<open>ascii_unpack\<close>

text \<open>
  The inner loop \<open>for (i = 0; i < 7; ++i)\<close>. \<open>p\<close> and \<open>src\<close> are \<open>uint8_t\<close> and the
  shifts are done on \<open>int\<close>; the result is stored into a \<open>char\<close>.
\<close>

function unpack_group ::
  "byte list \<Rightarrow> nat \<Rightarrow> nat \<Rightarrow> byte \<Rightarrow> byte list \<Rightarrow> nat \<Rightarrow> nat \<times> byte \<times> byte list \<times> nat" where
  "unpack_group bin b i p ascii a =
     (if i < 7
      then let src = bin ! b;
               c = drop_bit (8 - i) (ucast p :: 32 word) OR (push_bit i (ucast src) AND 0x7F)
           in unpack_group bin (b + 1) (i + 1) src (ascii[a := ucast c]) (a + 1)
      else (b, p, ascii, a))"
  by pat_completeness auto
termination
  by (relation "measure (\<lambda>(bin, b, i, p, ascii, a). 7 - i)") auto

function ascii_unpack_blocks ::
  "byte list \<Rightarrow> nat \<Rightarrow> nat \<Rightarrow> byte \<Rightarrow> byte list \<Rightarrow> nat \<Rightarrow> nat \<times> nat \<times> byte list \<times> nat" where
  "ascii_unpack_blocks bin b ascii_len p ascii a =
     (if ascii_len \<ge> 8
      then let (b', p', ascii', a') = unpack_group bin b 0 p ascii a
           in ascii_unpack_blocks bin b' (ascii_len - 8) p' (ascii'[a' := drop_bit 1 p']) (a' + 1)
      else (b, ascii_len, ascii, a))"
  by pat_completeness auto
termination
  by (relation "measure (\<lambda>(bin, b, ascii_len, p, ascii, a). ascii_len)") auto

function ascii_unpack_tail ::
  "byte list \<Rightarrow> nat \<Rightarrow> nat \<Rightarrow> nat \<Rightarrow> byte list \<Rightarrow> nat \<Rightarrow> byte list" where
  "ascii_unpack_tail bin b i ascii_len ascii a =
     (if i < ascii_len
      then ascii_unpack_tail bin (b + 1) (i + 1) ascii_len (ascii[a := bin ! b]) (a + 1)
      else ascii)"
  by pat_completeness auto
termination
  by (relation "measure (\<lambda>(bin, b, i, ascii_len, ascii, a). ascii_len - i)") auto

text \<open>
  \<open>ascii_unpack(bin, ascii_len, ascii)\<close>; \<open>DCHECK_LT(ascii_len, 8u)\<close> is the check between
  the two loops. The source and the destination are two buffers here.
\<close>

definition ascii_unpack ::
  "byte list \<Rightarrow> nat \<Rightarrow> nat \<Rightarrow> byte list \<Rightarrow> nat \<Rightarrow> error + byte list" where
  "ascii_unpack bin b ascii_len ascii a =
     (let (b', ascii_len', ascii', a') = ascii_unpack_blocks bin b ascii_len 0 ascii a
      in if ascii_len' < 8 then Inr (ascii_unpack_tail bin b' 0 ascii_len' ascii' a')
         else Inl CheckFailed)"

section \<open>compare_packed\<close>

text \<open>
  The inner loop: \<open>uint8_t conv = (ascii[0] >> i) | (ascii[1] << (7 - i))\<close> on the
  sign-extended \<open>char\<close>s, and \<open>res &= (conv == *packed)\<close>.
\<close>

function compare_group ::
  "byte list \<Rightarrow> nat \<Rightarrow> byte list \<Rightarrow> nat \<Rightarrow> nat \<Rightarrow> bool \<Rightarrow> nat \<times> nat \<times> bool" where
  "compare_group packed p mem ascii i res =
     (if i < 7
      then let conv = (ucast (signed_drop_bit i (scast (mem ! ascii) :: 32 word)
                              OR push_bit (7 - i) (scast (mem ! (ascii + 1)) :: 32 word)) :: byte)
           in compare_group packed (p + 1) mem (ascii + 1) (i + 1) (res \<and> conv = packed ! p)
      else (p, ascii, res))"
  by pat_completeness auto
termination
  by (relation "measure (\<lambda>(packed, p, mem, ascii, i, res). 7 - i)") auto

lemma compare_group_ptrs:
  "compare_group packed p mem ascii i res = (p', ascii', res') \<Longrightarrow>
     p' = p + (7 - i) \<and> ascii' = ascii + (7 - i)"
proof (induction packed p mem ascii i res rule: compare_group.induct)
  case (1 packed p mem ascii i res)
  show ?case
  proof (cases "i < 7")
    case True
    with "1.prems" "1.IH" [OF True refl] show ?thesis
      by (auto simp del: compare_group.simps simp add: compare_group.simps [of packed p mem ascii i res] Let_def)
  next
    case False
    with "1.prems" show ?thesis by simp
  qed
qed

text \<open>
  The first loop returns \<open>None\<close> where the source executes \<open>return false\<close>, and the
  pointers where it falls through to the second loop.
\<close>

function compare_blocks ::
  "byte list \<Rightarrow> nat \<Rightarrow> byte list \<Rightarrow> nat \<Rightarrow> nat \<Rightarrow> bool \<Rightarrow> (nat \<times> nat) option" where
  "compare_blocks packed p mem ascii lim res =
     (if ascii + 8 \<le> lim
      then let (p', ascii', res') = compare_group packed p mem ascii 0 res
           in if \<not> res' then None
              else compare_blocks packed p' mem (ascii' + 1) lim res'
      else Some (p, ascii))"
  by pat_completeness auto
termination
proof (relation "measure (\<lambda>(packed, p, mem, ascii, lim, res). lim - ascii)")
  show "wf (measure (\<lambda>(packed, p, mem, ascii, lim, res). lim - ascii))" by simp
next
  fix packed p mem ascii lim res x p' y ascii' res'
  assume "ascii + 8 \<le> lim" and "x = compare_group packed p mem ascii 0 res"
    and "(p', y) = x" and "(ascii', res') = y"
  then have "compare_group packed p mem ascii 0 res = (p', ascii', res')" by simp
  from compare_group_ptrs [OF this] \<open>ascii + 8 \<le> lim\<close>
  show "((packed, p', mem, ascii' + 1, lim, res'), (packed, p, mem, ascii, lim, res))
    \<in> measure (\<lambda>(packed, p, mem, ascii, lim, res). lim - ascii)"
    by simp
qed

text \<open>The second loop \<open>while (ascii < end)\<close> compares a \<open>char\<close> with a \<open>uint8_t\<close>, both as \<open>int\<close>.\<close>

function compare_tail :: "byte list \<Rightarrow> nat \<Rightarrow> byte list \<Rightarrow> nat \<Rightarrow> nat \<Rightarrow> bool" where
  "compare_tail packed p mem ascii lim =
     (if ascii < lim
      then if (scast (mem ! ascii) :: 32 word) \<noteq> ucast (packed ! p) then False
           else compare_tail packed (p + 1) mem (ascii + 1) lim
      else True)"
  by pat_completeness auto
termination
  by (relation "measure (\<lambda>(packed, p, mem, ascii, lim). lim - ascii)") auto

definition compare_packed :: "byte list \<Rightarrow> nat \<Rightarrow> byte list \<Rightarrow> nat \<Rightarrow> nat \<Rightarrow> bool" where
  "compare_packed packed p mem ascii ascii_len =
     (let lim = ascii + ascii_len
      in case compare_blocks packed p mem ascii lim True of
           None \<Rightarrow> False
         | Some (p', ascii') \<Rightarrow> compare_tail packed p' mem ascii' lim)"

section \<open>A functional view of the codec\<close>

text \<open>
  The proofs compare the loops above with list functions. \<open>conv_byte\<close> is the byte that
  \<open>compare_packed\<close> derives from two neighbouring characters, \<open>unpack_byte\<close> the
  character that \<open>ascii_unpack\<close> derives from two neighbouring packed bytes, both on
  unsigned bytes. \<open>pack8\<close> and \<open>unpack8\<close> are one group of seven and eight bytes,
  \<open>pack_spec\<close> and \<open>unpack_spec\<close> whole strings, whose last \<open>len mod 8\<close> bytes are
  copied. \<open>packed_len\<close> is the number of bytes that \<open>ascii_pack\<close> writes and
  \<open>all_ascii\<close> says that no byte has bit \<open>0x80\<close> set. \<open>high_bits\<close> says that some
  byte of a register has its top bit set.
\<close>

definition high_bits :: "m128i \<Rightarrow> bool" where
  "high_bits r = (\<exists>k<16. bit (if k < 8 then lane0 r else lane1 r) (8 * (k mod 8) + 7))"

declare pack_shifts.simps [simp del]

definition conv_byte :: "byte \<Rightarrow> byte \<Rightarrow> nat \<Rightarrow> byte" where
  "conv_byte c0 c1 k = drop_bit k c0 OR push_bit (7 - k) c1"

definition unpack_byte :: "byte \<Rightarrow> byte \<Rightarrow> nat \<Rightarrow> byte" where
  "unpack_byte p src i =
     ucast (drop_bit (8 - i) (ucast p :: 32 word) OR (push_bit i (ucast src :: 32 word) AND 0x7F))"

declare ascii_pack_blocks.simps [simp del] ascii_pack_tail.simps [simp del]

definition all_ascii :: "byte list \<Rightarrow> bool" where
  "all_ascii s = (\<forall>c\<in>set s. \<not> bit c 7)"

definition pack8 :: "byte list \<Rightarrow> byte list" where
  "pack8 t = map (\<lambda>k. conv_byte (t ! k) (t ! (k + 1)) k) [0..<7]"

function pack_spec :: "byte list \<Rightarrow> byte list" where
  "pack_spec s = (if 8 \<le> length s then pack8 s @ pack_spec (drop 8 s) else s)"
  by pat_completeness auto
termination
  by (relation "measure length") auto

declare pack_spec.simps [simp del]

declare unpack_group.simps [simp del] ascii_unpack_blocks.simps [simp del]
  ascii_unpack_tail.simps [simp del]

definition group_byte :: "byte list \<Rightarrow> byte \<Rightarrow> nat \<Rightarrow> byte" where
  "group_byte q p0 k = unpack_byte (if k = 0 then p0 else q ! (k - 1)) (q ! k) k"

definition unpack8 :: "byte list \<Rightarrow> byte list" where
  "unpack8 q = map (group_byte q 0) [0..<7] @ [drop_bit 1 (q ! 6)]"

function unpack_spec :: "byte list \<Rightarrow> nat \<Rightarrow> byte list" where
  "unpack_spec q n = (if 8 \<le> n then unpack8 q @ unpack_spec (drop 7 q) (n - 8) else take n q)"
  by pat_completeness auto
termination
  by (relation "measure snd") auto

declare unpack_spec.simps [simp del]

definition packed_len :: "nat \<Rightarrow> nat" where
  "packed_len n = 7 * (n div 8) + n mod 8"

declare compare_group.simps [simp del] compare_blocks.simps [simp del] compare_tail.simps [simp del]

definition char_conv :: "byte \<Rightarrow> byte \<Rightarrow> nat \<Rightarrow> byte" where
  "char_conv c0 c1 i =
     ucast (signed_drop_bit i (scast c0 :: 32 word) OR push_bit (7 - i) (scast c1 :: 32 word))"

section \<open>CompactObj\<close>

text \<open>
  \<open>compact_object.h\<close> and \<open>compact_object.cc\<close> are not among the sources; the test file
  \<open>compact_object_test.cc\<close> is. This section follows the specification's sections 3
  and 4.2, with the hash function of the xxhash library and the constants that the
  specification leaves open as parameters, and with the codec above for the packed
  representation.
\<close>

text \<open>\<open>XXH64_hash_t kSeed = 24061983\<close> of the test file.\<close>

definition kSeed :: "64 word" where
  "kSeed = 24061983"

text \<open>
  Modelled from the spec: \<open>CompactObj::HashCode(string_view)\<close> is missing. It is "a
  fixed-seed 64-bit non-cryptographic mixing hash applied to the raw byte sequence"; the
  tests compare it with \<open>XXH3_64bits_withSeed(s.data(), s.size(), kSeed)\<close>, which is a
  parameter here.
\<close>

definition HashCode_sv :: "(byte list \<Rightarrow> 64 word \<Rightarrow> 64 word) \<Rightarrow> byte list \<Rightarrow> 64 word" where
  "HashCode_sv XXH3_64bits_withSeed str = XXH3_64bits_withSeed str kSeed"

text \<open>
  Modelled from the spec: the conversion between an integer and "the canonical decimal
  text of an integer" is missing. \<open>int_text\<close> writes an integer in decimal, with a minus
  sign when it is negative; \<open>text_value\<close> reads digits back.
\<close>

function decimal_digits :: "nat \<Rightarrow> byte list" where
  "decimal_digits n =
     (if n < 10 then [0x30 + of_nat n] else decimal_digits (n div 10) @ [0x30 + of_nat (n mod 10)])"
  by pat_completeness auto
termination
  by (relation "measure id") auto

definition int_text :: "int \<Rightarrow> byte list" where
  "int_text i = (if i < 0 then 0x2D # decimal_digits (nat (- i)) else decimal_digits (nat i))"

definition digits_value :: "byte list \<Rightarrow> nat" where
  "digits_value ds = foldl (\<lambda>acc d. 10 * acc + unat (d - 0x30)) 0 ds"

definition text_value :: "byte list \<Rightarrow> int" where
  "text_value s =
     (case s of [] \<Rightarrow> 0
      | c # cs \<Rightarrow> if c = 0x2D then - int (digits_value cs) else int (digits_value s))"

text \<open>
  Modelled from the spec: the constants of \<open>CompactObj\<close> are missing ("the exact
  inline-capacity threshold, small-int range, and ASCII-inline-vs-raw cutoff constants are
  implementation details not fully visible").
\<close>

record compact_consts =
  inline_capacity :: nat
  small_int_bits :: nat

text \<open>
  Modelled from the spec: the test of decision 1 is missing, "the string is the canonical
  decimal text of an integer representable in the object's small-int width".
\<close>

definition is_small_int :: "compact_consts \<Rightarrow> byte list \<Rightarrow> bool" where
  "is_small_int cc s =
     (let v = text_value s
      in s \<noteq> [] \<and> int_text v = s \<and>
         - (2 ^ (small_int_bits cc - 1)) \<le> v \<and> v < 2 ^ (small_int_bits cc - 1))"

text \<open>
  Modelled from the spec: the class \<open>CompactObj\<close> is missing. Its tag is "one of {EMPTY,
  INLINE_ASCII_PACKED, INLINE_RAW, SMALL_INT, FOREIGN_POINTER}" and it carries "two
  independent booleans". A packed payload keeps the packed bytes and the length of the
  string; a foreign payload keeps the bytes of the heap buffer.
\<close>

datatype payload =
    EMPTY
  | INLINE_ASCII_PACKED "byte list" nat
  | INLINE_RAW "byte list"
  | SMALL_INT int
  | FOREIGN_POINTER "byte list"

record CompactObj =
  payload :: payload
  expire_bit :: bool
  flag_bit :: bool

text \<open>
  Modelled from the spec: \<open>CompactObj::SetString\<close> is missing. Its decision order is that
  of section 4.2: a small integer; else packed when the string "fits the inline capacity
  and is pure ASCII"; else raw inline when it fits; else a heap buffer. The packed bytes
  are those that \<open>ascii_pack\<close> writes into a buffer of \<open>packed_len\<close> bytes.
\<close>

definition SetString :: "compact_consts \<Rightarrow> CompactObj \<Rightarrow> byte list \<Rightarrow> CompactObj" where
  "SetString cc obj str =
     obj\<lparr>payload :=
       (if is_small_int cc str then SMALL_INT (text_value str)
        else if length str \<le> inline_capacity cc \<and> validate_ascii_fast str (length str)
        then INLINE_ASCII_PACKED
               (ascii_pack str 0 (length str) (replicate (packed_len (length str)) 0) 0) (length str)
        else if length str \<le> inline_capacity cc then INLINE_RAW str
        else FOREIGN_POINTER str)\<rparr>"

text \<open>
  Modelled from the spec: \<open>CompactObj::GetString\<close> is missing. It "materializes the
  logical string"; "when storage is packed, a caller-provided scratch buffer is unpacked
  into".
\<close>

definition GetString :: "CompactObj \<Rightarrow> error + byte list" where
  "GetString obj =
     (case payload obj of
        EMPTY \<Rightarrow> Inr []
      | INLINE_ASCII_PACKED packed len \<Rightarrow> ascii_unpack packed 0 len (replicate len 0) 0
      | INLINE_RAW bytes \<Rightarrow> Inr bytes
      | SMALL_INT i \<Rightarrow> Inr (int_text i)
      | FOREIGN_POINTER bytes \<Rightarrow> Inr bytes)"

text \<open>
  Modelled from the spec: \<open>CompactObj::HashCode()\<close> is missing. It "must be computed over
  the logical bytes (unpacking transiently if necessary)".
\<close>

definition HashCode :: "(byte list \<Rightarrow> 64 word \<Rightarrow> 64 word) \<Rightarrow> CompactObj \<Rightarrow> error + 64 word" where
  "HashCode XXH3_64bits_withSeed obj =
     (case GetString obj of Inl e \<Rightarrow> Inl e
      | Inr bytes \<Rightarrow> Inr (HashCode_sv XXH3_64bits_withSeed bytes))"

text \<open>
  Modelled from the spec: the comparisons of \<open>CompactObj\<close> are missing. Equality "is
  defined for CompactObj-vs-CompactObj and CompactObj-vs-raw-string comparisons";
  \<open>ComparePacked\<close> is "used to implement equality ... without materializing the unpacked
  string". \<open>EqualStr\<close> compares with a string, \<open>Equal\<close> with the string of another object.
\<close>

definition EqualStr :: "CompactObj \<Rightarrow> byte list \<Rightarrow> bool" where
  "EqualStr obj str =
     (case payload obj of
        EMPTY \<Rightarrow> str = []
      | INLINE_ASCII_PACKED packed len \<Rightarrow>
          len = length str \<and> validate_ascii_fast str (length str) \<and> compare_packed packed 0 str 0 len
      | INLINE_RAW bytes \<Rightarrow> bytes = str
      | SMALL_INT i \<Rightarrow> int_text i = str
      | FOREIGN_POINTER bytes \<Rightarrow> bytes = str)"

definition Equal :: "CompactObj \<Rightarrow> CompactObj \<Rightarrow> bool" where
  "Equal a b = (case GetString b of Inl e \<Rightarrow> False | Inr str \<Rightarrow> EqualStr a str)"

section \<open>StringMap\<close>

text \<open>
  An address is a 64-bit value. The heap maps the address of each live sds allocation to
  its header length and to the bytes that start at the sds pointer.
\<close>

type_synonym addr = "64 word"

text \<open>
  Modelled from the spec: the sds type of \<open>redis/sds.h\<close> is missing, "a length-aware byte
  buffer allocation".
\<close>

record sds_alloc =
  sds_len :: nat
  sds_buf :: "byte list"

text \<open>
  Modelled from the spec: the class \<open>StringMap\<close> of \<open>string_map.h\<close>, its base class and the
  allocator are missing. The state is the heap, the blocks that the allocator hands out
  next, each with the byte that fills it before it is written, and the keys that the
  table holds.
\<close>

record string_map =
  heap :: "addr \<rightharpoonup> sds_alloc"
  avail :: "(addr \<times> byte) list"
  entries :: "addr list"

text \<open>
  Modelled from the spec: \<open>zmalloc\<close> is missing, the "allocate" of the allocator boundary,
  with "abort-on-OOM semantics".
\<close>

definition zmalloc :: "string_map \<Rightarrow> error + (addr \<times> byte \<times> string_map)" where
  "zmalloc m = (case avail m of [] \<Rightarrow> Inl OutOfMemory
                | (a, fill) # rest \<Rightarrow> Inr (a, fill, m\<lparr>avail := rest\<rparr>))"

text \<open>
  Modelled from the spec: \<open>AllocSdsWithSpace\<close> is declared in \<open>sds_utils.h\<close> and its body is
  missing. It "allocates a key buffer sized for field plus an 8-byte pointer slot": an
  sds of length \<open>strlen\<close>, its terminating NUL, and \<open>space\<close> more bytes.
\<close>

definition AllocSdsWithSpace :: "string_map \<Rightarrow> nat \<Rightarrow> nat \<Rightarrow> error + (addr \<times> string_map)" where
  "AllocSdsWithSpace m strlen space =
     (case zmalloc m of Inl e \<Rightarrow> Inl e
      | Inr (s, fill, m') \<Rightarrow>
          Inr (s, m'\<lparr>heap := (heap m')(s \<mapsto>
                 \<lparr>sds_len = strlen, sds_buf = replicate strlen fill @ [0] @ replicate space fill\<rparr>)\<rparr>))"

text \<open>
  Modelled from the spec: \<open>sdsnewlen\<close> is missing. It "allocates a separate value buffer
  holding value's bytes", followed by a NUL.
\<close>

definition sdsnewlen :: "string_map \<Rightarrow> byte list \<Rightarrow> error + (addr \<times> string_map)" where
  "sdsnewlen m init =
     (case zmalloc m of Inl e \<Rightarrow> Inl e
      | Inr (s, fill, m') \<Rightarrow>
          Inr (s, m'\<lparr>heap := (heap m')(s \<mapsto> \<lparr>sds_len = length init, sds_buf = init @ [0]\<rparr>)\<rparr>))"

text \<open>Modelled from the spec: \<open>sdslen\<close> is missing; it reads the length of the header.\<close>

definition sdslen :: "string_map \<Rightarrow> addr \<Rightarrow> error + nat" where
  "sdslen m s = (case heap m s of None \<Rightarrow> Inl BadAccess | Some x \<Rightarrow> Inr (sds_len x))"

text \<open>
  Modelled from the spec: \<open>sdsfree\<close> is missing, the "free" of the allocator boundary.
  It does nothing on a null pointer.
\<close>

definition sdsfree :: "string_map \<Rightarrow> addr \<Rightarrow> error + string_map" where
  "sdsfree m s =
     (if s = 0 then Inr m
      else case heap m s of None \<Rightarrow> Inl BadAccess
           | Some x \<Rightarrow> Inr (m\<lparr>heap := (heap m)(s := None)\<rparr>))"

text \<open>
  Reading and writing \<open>n\<close> bytes at an offset of an sds pointer (\<open>memcpy\<close>, \<open>memcmp\<close>,
  \<open>Load64\<close>, \<open>Store64\<close>). An access outside a live allocation is \<open>BadAccess\<close>.
\<close>

definition read_bytes :: "string_map \<Rightarrow> addr \<Rightarrow> nat \<Rightarrow> nat \<Rightarrow> error + byte list" where
  "read_bytes m s off n =
     (case heap m s of None \<Rightarrow> Inl BadAccess
      | Some x \<Rightarrow> if off + n \<le> length (sds_buf x) then Inr (take n (drop off (sds_buf x)))
                  else Inl BadAccess)"

definition write_bytes :: "string_map \<Rightarrow> addr \<Rightarrow> nat \<Rightarrow> byte list \<Rightarrow> error + string_map" where
  "write_bytes m s off bs =
     (case heap m s of None \<Rightarrow> Inl BadAccess
      | Some x \<Rightarrow>
          if off + length bs \<le> length (sds_buf x)
          then Inr (m\<lparr>heap := (heap m)(s \<mapsto> x\<lparr>sds_buf := store_bytes (sds_buf x) off bs\<rparr>)\<rparr>)
          else Inl BadAccess)"

text \<open>\<open>GetValue(key)\<close>: \<open>Load64\<close> at \<open>key + sdslen(key) + 1\<close>.\<close>

definition GetValue :: "string_map \<Rightarrow> addr \<Rightarrow> error + addr" where
  "GetValue m key =
     (case sdslen m key of Inl e \<Rightarrow> Inl e
      | Inr n \<Rightarrow> (case read_bytes m key (n + 1) 8 of Inl e \<Rightarrow> Inl e
                  | Inr bs \<Rightarrow> Inr (Load64 bs 0)))"

text \<open>\<open>StringMap::ObjDelete(obj, has_ttl)\<close>.\<close>

definition ObjDelete :: "string_map \<Rightarrow> addr \<Rightarrow> bool \<Rightarrow> error + string_map" where
  "ObjDelete m obj has_ttl =
     (let s1 = obj
      in case GetValue m s1 of Inl e \<Rightarrow> Inl e
         | Inr val \<Rightarrow> (case sdsfree m val of Inl e \<Rightarrow> Inl e
                       | Inr m' \<Rightarrow> sdsfree m' s1))"

text \<open>\<open>StringMap::Hash(obj, cookie)\<close>; \<open>CHECK_EQ(cookie, 0u)\<close> aborts.\<close>

definition Hash ::
  "(byte list \<Rightarrow> 64 word \<Rightarrow> 64 word) \<Rightarrow> string_map \<Rightarrow> addr \<Rightarrow> 32 word \<Rightarrow> error + 64 word" where
  "Hash XXH3_64bits_withSeed m obj cookie =
     (if cookie \<noteq> 0 then Inl Fatal
      else let key = obj
           in case sdslen m key of Inl e \<Rightarrow> Inl e
              | Inr n \<Rightarrow> (case read_bytes m key 0 n of Inl e \<Rightarrow> Inl e
                          | Inr bs \<Rightarrow> Inr (HashCode_sv XXH3_64bits_withSeed bs)))"

text \<open>\<open>StringMap::ObjEqual(left, right, right_cookie)\<close>.\<close>

definition ObjEqual :: "string_map \<Rightarrow> addr \<Rightarrow> addr \<Rightarrow> 32 word \<Rightarrow> error + bool" where
  "ObjEqual m left right right_cookie =
     (if right_cookie \<noteq> 0 then Inl Fatal
      else let s1 = left; s2 = right
           in case sdslen m s1 of Inl e \<Rightarrow> Inl e
              | Inr n1 \<Rightarrow> (case sdslen m s2 of Inl e \<Rightarrow> Inl e
                  | Inr n2 \<Rightarrow>
                      if n1 \<noteq> n2 then Inr False
                      else (case read_bytes m s1 0 n1 of Inl e \<Rightarrow> Inl e
                            | Inr b1 \<Rightarrow> (case read_bytes m s2 0 n1 of Inl e \<Rightarrow> Inl e
                                          | Inr b2 \<Rightarrow> Inr (b1 = b2)))))"

text \<open>
  Modelled from the spec: \<open>AddInternal\<close> of the base class is missing. An "insertion
  conflict" is a "duplicate key": a stored key that \<open>ObjEqual\<close> finds equal to the new one.
  Otherwise the new key is stored.
\<close>

definition AddInternal :: "string_map \<Rightarrow> addr \<Rightarrow> bool \<Rightarrow> bool \<times> string_map" where
  "AddInternal m obj has_ttl =
     (if list_ex (\<lambda>e. ObjEqual m e obj 0 = Inr True) (entries m) then (False, m)
      else (True, m\<lparr>entries := obj # entries m\<rparr>))"

text \<open>
  \<open>StringMap::AddOrSet(field, value, ttl_sec)\<close>. \<open>CHECK_EQ(ttl_sec, UINT32_MAX)\<close> and
  \<open>LOG(FATAL)\<close> abort; the result then carries the state in which the process stops.
  \<open>AllocSdsWithSpace\<close> takes a \<open>uint32_t\<close>, so \<open>field.size()\<close> is reduced modulo \<open>2^32\<close>.
\<close>

definition AddOrSet ::
  "string_map \<Rightarrow> byte list \<Rightarrow> byte list \<Rightarrow> 32 word \<Rightarrow> (error \<times> string_map) + (bool \<times> string_map)" where
  "AddOrSet m field val ttl_sec =
     (if ttl_sec \<noteq> 0xFFFFFFFF then Inl (Fatal, m)
      else case AllocSdsWithSpace m (length field mod 2 ^ 32) 8 of Inl e \<Rightarrow> Inl (e, m)
      | Inr (newkey, m1) \<Rightarrow>
      (case (if field \<noteq> [] then write_bytes m1 newkey 0 field else Inr m1) of Inl e \<Rightarrow> Inl (e, m1)
      | Inr m2 \<Rightarrow>
      (case sdsnewlen m2 val of Inl e \<Rightarrow> Inl (e, m2)
      | Inr (v, m3) \<Rightarrow>
      (case write_bytes m3 newkey (length field + 1) (le_bytes 8 v) of Inl e \<Rightarrow> Inl (e, m3)
      | Inr m4 \<Rightarrow>
         let has_ttl = False;
             (added, m5) = AddInternal m4 newkey has_ttl
         in if \<not> added
            then (case ObjDelete m5 newkey has_ttl of Inl e \<Rightarrow> Inl (e, m5)
                  | Inr m6 \<Rightarrow> Inl (Fatal, m6))
            else Inr (True, m5)))))"

text \<open>\<open>StringMap::Erase(field)\<close>: \<open>return false;\<close>.\<close>

definition Erase :: "string_map \<Rightarrow> byte list \<Rightarrow> bool \<times> string_map" where
  "Erase m field = (False, m)"

text \<open>
  The proofs use these predicates. \<open>alloc_ok\<close>: the allocator hands out distinct
  non-null addresses that are not live. \<open>entry_ok\<close>: a key is a live allocation of
  \<open>sds_len + 9\<close> bytes with a NUL after the field, whose last eight bytes are the address
  of another live allocation. \<open>key_alloc\<close> and \<open>val_alloc\<close> are the two allocations of an
  entry, and \<open>prepared\<close> is the state of \<open>AddOrSet\<close> when it calls \<open>AddInternal\<close>.
\<close>

definition alloc_ok :: "string_map \<Rightarrow> bool" where
  "alloc_ok m \<longleftrightarrow>
     distinct (map fst (avail m)) \<and> list_all (\<lambda>a. a \<noteq> 0 \<and> heap m a = None) (map fst (avail m))"

definition entry_ok :: "string_map \<Rightarrow> addr \<Rightarrow> bool" where
  "entry_ok m k =
     (case heap m k of None \<Rightarrow> False
      | Some x \<Rightarrow>
          length (sds_buf x) = sds_len x + 9 \<and> sds_buf x ! sds_len x = 0 \<and>
          (case GetValue m k of Inl e \<Rightarrow> False
           | Inr v \<Rightarrow> v \<noteq> k \<and> v \<noteq> 0 \<and> heap m v \<noteq> None))"

definition key_alloc :: "byte list \<Rightarrow> addr \<Rightarrow> sds_alloc" where
  "key_alloc field v = \<lparr>sds_len = length field, sds_buf = field @ [0] @ le_bytes 8 v\<rparr>"

definition val_alloc :: "byte list \<Rightarrow> sds_alloc" where
  "val_alloc val = \<lparr>sds_len = length val, sds_buf = val @ [0]\<rparr>"

definition prepared :: "string_map \<Rightarrow> byte list \<Rightarrow> byte list \<Rightarrow> addr \<Rightarrow> addr \<Rightarrow> string_map" where
  "prepared m field val k v =
     m\<lparr>heap := (heap m)(k \<mapsto> key_alloc field v, v \<mapsto> val_alloc val), avail := drop 2 (avail m)\<rparr>"

text \<open>Two states for the examples: an empty map, and the map after one insertion.\<close>

definition example_map :: string_map where
  "example_map =
     \<lparr>heap = Map.empty,
      avail = [(0x1000, 0xAA), (0x2000, 0xBB), (0x3000, 0xCC), (0x4000, 0xDD)],
      entries = []\<rparr>"

definition example_map1 :: string_map where
  "example_map1 =
     \<lparr>heap = [0x1000 \<mapsto> key_alloc [0x61, 0x62] 0x2000, 0x2000 \<mapsto> val_alloc [0x78]],
      avail = [(0x3000, 0xCC), (0x4000, 0xDD)],
      entries = [0x1000]\<rparr>"

section \<open>Correctness of the validator\<close>

lemma Load64_bit:
  "n < 64 \<Longrightarrow> bit (Load64 mem p) n = (p + n div 8 < length mem \<and> bit (mem ! (p + n div 8)) (n mod 8))"
proof -
  assume n: "n < 64"
  have "bit (horner_sum uint (2 ^ LENGTH(8)) (take 8 (drop p mem))) n
      = (n div 8 < length (take 8 (drop p mem)) \<and> bit ((take 8 (drop p mem)) ! (n div 8)) (n mod 8))"
    by (simp only: bit_horner_sum_uint_exp_iff) simp
  with n show ?thesis
    by (auto simp: Load64_def bit_word_of_int_iff)
qed

lemma movemask_zero_iff: "mm_movemask_epi8 r = 0 \<longleftrightarrow> \<not> high_bits r"
proof -
  let ?bs = "map (\<lambda>k. bit (if k < 8 then lane0 r else lane1 r) (8 * (k mod 8) + 7)) [0..<16]"
  have "mm_movemask_epi8 r = 0 \<longleftrightarrow> (\<forall>n<32. \<not> bit (horner_sum of_bool 2 ?bs :: 32 word) n)"
    unfolding mm_movemask_epi8_def by (auto simp: bit_eq_iff dest: bit_imp_le_length)
  also have "\<dots> \<longleftrightarrow> (\<forall>n<16. \<not> ?bs ! n)"
    by (auto simp: bit_horner_sum_bit_word_iff simp del: upt_rec_numeral map_upt_eqI)
  also have "\<dots> \<longleftrightarrow> \<not> high_bits r"
    unfolding high_bits_def by (auto simp del: upt_rec_numeral)
  finally show ?thesis .
qed

lemma high_bits_zero: "\<not> high_bits mm_setzero_si128"
  by (simp add: high_bits_def mm_setzero_si128_def)

lemma high_bits_or: "high_bits (mm_or_si128 a b) \<longleftrightarrow> high_bits a \<or> high_bits b"
  by (auto simp: high_bits_def mm_or_si128_def bit_or_iff)

lemma high_bits_loadu:
  assumes "p + 16 \<le> length mem"
  shows "high_bits (mm_loadu_si128 mem p) \<longleftrightarrow> (\<exists>j. p \<le> j \<and> j < p + 16 \<and> bit (mem ! j) 7)"
proof
  assume "high_bits (mm_loadu_si128 mem p)"
  then obtain k where k: "k < 16"
    "bit (if k < 8 then lane0 (mm_loadu_si128 mem p) else lane1 (mm_loadu_si128 mem p))
       (8 * (k mod 8) + 7)"
    unfolding high_bits_def by blast
  have "bit (mem ! (p + k)) 7"
  proof (cases "k < 8")
    case True
    with k have "bit (Load64 mem p) (8 * k + 7)" by (simp add: mm_loadu_si128_def)
    with True show ?thesis by (simp add: Load64_bit)
  next
    case False
    with k have "k mod 8 = k - 8" by (simp add: mod_if)
    with False k have "bit (Load64 mem (p + 8)) (8 * (k - 8) + 7)"
      by (simp add: mm_loadu_si128_def)
    with False k show ?thesis by (simp add: Load64_bit)
  qed
  with k show "\<exists>j. p \<le> j \<and> j < p + 16 \<and> bit (mem ! j) 7"
    by (intro exI [of _ "p + k"]) simp
next
  assume "\<exists>j. p \<le> j \<and> j < p + 16 \<and> bit (mem ! j) 7"
  then obtain j where j: "p \<le> j" "j < p + 16" "bit (mem ! j) 7" by blast
  define k where "k = j - p"
  with j have k: "k < 16" "j = p + k" by simp_all
  have "bit (if k < 8 then Load64 mem p else Load64 mem (p + 8)) (8 * (k mod 8) + 7)"
  proof (cases "k < 8")
    case True
    with j k assms show ?thesis by (simp add: Load64_bit)
  next
    case False
    with k have "k mod 8 = k - 8" by (simp add: mod_if)
    with False j k assms show ?thesis by (simp add: Load64_bit)
  qed
  with k show "high_bits (mm_loadu_si128 mem p)"
    unfolding high_bits_def mm_loadu_si128_def by (intro exI [of _ k]) (simp split: if_splits)
qed

lemma ex_range_split:
  fixes a b c :: nat
  assumes "a \<le> b" "b \<le> c"
  shows "(\<exists>j. a \<le> j \<and> j < c \<and> P j) \<longleftrightarrow>
         (\<exists>j. a \<le> j \<and> j < b \<and> P j) \<or> (\<exists>j. b \<le> j \<and> j < c \<and> P j)"
proof
  assume "\<exists>j. a \<le> j \<and> j < c \<and> P j"
  then obtain j where j: "a \<le> j" "j < c" "P j" by blast
  show "(\<exists>j. a \<le> j \<and> j < b \<and> P j) \<or> (\<exists>j. b \<le> j \<and> j < c \<and> P j)"
  proof (cases "j < b")
    case True with j show ?thesis by blast
  next
    case False
    then have "b \<le> j" by simp
    with j show ?thesis by blast
  qed
next
  assume "(\<exists>j. a \<le> j \<and> j < b \<and> P j) \<or> (\<exists>j. b \<le> j \<and> j < c \<and> P j)"
  then show "\<exists>j. a \<le> j \<and> j < c \<and> P j"
  proof
    assume "\<exists>j. a \<le> j \<and> j < b \<and> P j"
    then obtain j where "a \<le> j" "j < b" "P j" by blast
    with assms have "a \<le> j \<and> j < c \<and> P j" by simp
    then show ?thesis ..
  next
    assume "\<exists>j. b \<le> j \<and> j < c \<and> P j"
    then obtain j where "b \<le> j" "j < c" "P j" by blast
    with assms have "a \<le> j \<and> j < c \<and> P j" by simp
    then show ?thesis ..
  qed
qed

lemma validate_blocks_inv:
  "validate_blocks src len i h = (i', h') \<Longrightarrow> 16 \<le> len \<Longrightarrow> len \<le> length src \<Longrightarrow> i \<le> len \<Longrightarrow>
     i \<le> i' \<and> i' \<le> len \<and> len < i' + 16 \<and>
     (high_bits h' \<longleftrightarrow> high_bits h \<or> (\<exists>j. i \<le> j \<and> j < i' \<and> bit (src ! j) 7))"
proof (induction src len i h rule: validate_blocks.induct)
  case (1 src len i h)
  show ?case
  proof (cases "i \<le> len - 16")
    case True
    with "1.prems" have rec: "validate_blocks src len (i + 16) (mm_or_si128 h (mm_loadu_si128 src i)) = (i', h')"
      by (simp del: validate_blocks.simps add: validate_blocks.simps [of src len i h])
    from True "1.prems" have le: "i + 16 \<le> len" by simp
    from "1.IH" [OF True rec "1.prems"(2,3) le]
    have ih: "i + 16 \<le> i'" "i' \<le> len" "len < i' + 16"
      "high_bits h' \<longleftrightarrow> high_bits (mm_or_si128 h (mm_loadu_si128 src i)) \<or> (\<exists>j. i + 16 \<le> j \<and> j < i' \<and> bit (src ! j) 7)"
      by simp_all
    from le "1.prems" have "i + 16 \<le> length src" by simp
    note hl = high_bits_loadu [OF this]
    have "(high_bits h' \<longleftrightarrow> high_bits h \<or> (\<exists>j. i \<le> j \<and> j < i' \<and> bit (src ! j) 7))"
      unfolding ih(4) high_bits_or hl
      using ex_range_split [of i "i + 16" i' "\<lambda>j. bit (src ! j) 7"] ih(1) by auto
    with ih show ?thesis by simp
  next
    case False
    with "1.prems" have "i' = i" "h' = h"
      by (simp_all del: validate_blocks.simps add: validate_blocks.simps [of src len i h])
    with False "1.prems" show ?thesis by auto
  qed
qed

lemma validate_tail_bit:
  "bit (validate_tail src len i t) 7 \<longleftrightarrow> bit t 7 \<or> (\<exists>j. i \<le> j \<and> j < len \<and> bit (src ! j) 7)"
proof (induction src len i t rule: validate_tail.induct)
  case (1 src len i t)
  show ?case
  proof (cases "i < len")
    case True
    have "(\<exists>j. i \<le> j \<and> j < i + 1 \<and> bit (src ! j) 7) \<longleftrightarrow> bit (src ! i) 7"
      by (auto simp: le_less_Suc_eq)
    with ex_range_split [of i "i + 1" len "\<lambda>j. bit (src ! j) 7"] True
    have "(\<exists>j. i \<le> j \<and> j < len \<and> bit (src ! j) 7) \<longleftrightarrow> bit (src ! i) 7 \<or> (\<exists>j. i + 1 \<le> j \<and> j < len \<and> bit (src ! j) 7)"
      by simp
    with "1.IH" [OF True] True show ?thesis
      by (simp del: validate_tail.simps add: validate_tail.simps [of src len i t] bit_or_iff)
  next
    case False
    then show ?thesis by auto
  qed
qed

lemma tail_mask_zero_iff: "(scast (t :: byte) :: 32 word) AND 0x80 = 0 \<longleftrightarrow> \<not> bit t 7"
proof -
  have "(0x80 :: 32 word) = push_bit 7 1" by simp
  then have "(scast t :: 32 word) AND 0x80 = 0 \<longleftrightarrow> \<not> bit (scast t :: 32 word) 7"
    by (metis and_exp_eq_0_iff_not_bit push_bit_of_1)
  also have "\<dots> \<longleftrightarrow> \<not> bit t 7"
    by (simp add: bit_signed_iff)
  finally show ?thesis .
qed

lemma validate_ascii_fast_iff:
  assumes "len \<le> length src"
  shows "validate_ascii_fast src len \<longleftrightarrow> (\<forall>j<len. \<not> bit (src ! j) 7)"
proof -
  obtain i h where ih: "(if len \<ge> 16 then validate_blocks src len 0 mm_setzero_si128
             else (0, mm_setzero_si128)) = (i, h)"
    by (cases "(if len \<ge> 16 then validate_blocks src len 0 mm_setzero_si128
             else (0, mm_setzero_si128))") 
  have inv: "i \<le> len \<and> (high_bits h \<longleftrightarrow> (\<exists>j. j < i \<and> bit (src ! j) 7))"
  proof (cases "16 \<le> len")
    case True
    with ih have "validate_blocks src len 0 mm_setzero_si128 = (i, h)" by simp
    from validate_blocks_inv [OF this True assms] show ?thesis
      by (simp add: high_bits_zero)
  next
    case False
    with ih show ?thesis by (auto simp: high_bits_zero)
  qed
  have "validate_ascii_fast src len \<longleftrightarrow>
      mm_movemask_epi8 h = 0 \<and> (scast (validate_tail src len i 0) :: 32 word) AND 0x80 = 0"
    unfolding validate_ascii_fast_def ih Let_def by (simp add: or_eq_0_iff)
  also have "\<dots> \<longleftrightarrow> \<not> (\<exists>j. j < i \<and> bit (src ! j) 7) \<and> \<not> (\<exists>j. i \<le> j \<and> j < len \<and> bit (src ! j) 7)"
    by (simp only: movemask_zero_iff tail_mask_zero_iff validate_tail_bit inv) simp
  also have "\<dots> \<longleftrightarrow> (\<forall>j<len. \<not> bit (src ! j) 7)"
    using ex_range_split [of 0 i len "\<lambda>j. bit (src ! j) 7"] inv by auto
  finally show ?thesis .
qed

text \<open>
  Claim C4. For a buffer holding at least \<open>len\<close> bytes, \<open>validate_ascii_fast\<close> returns
  true exactly when each of the first \<open>len\<close> bytes has bit \<open>0x80\<close> clear, whatever
  \<open>len\<close> is (below 16, equal to 16, or above); and setting bit \<open>0x80\<close> of any one of
  these bytes that had it clear makes the function return false.
\<close>

theorem validate_ascii_fast_correct:
  assumes "len \<le> length src"
  shows "(validate_ascii_fast src len \<longleftrightarrow> (\<forall>j<len. \<not> bit (src ! j) 7)) \<and>
         (\<forall>i<len. \<not> bit (src ! i) 7 \<longrightarrow>
            \<not> validate_ascii_fast (src[i := src ! i XOR 0x80]) len)"
proof (intro conjI allI impI)
  show "validate_ascii_fast src len \<longleftrightarrow> (\<forall>j<len. \<not> bit (src ! j) 7)"
    using assms by (rule validate_ascii_fast_iff)
next
  fix i assume i: "i < len" and clear: "\<not> bit (src ! i) 7"
  let ?src = "src[i := src ! i XOR 0x80]"
  have "(0x80 :: byte) = push_bit 7 1" by simp
  then have "bit (0x80 :: byte) 7" by (simp only: bit_push_bit_iff) simp
  with clear have "bit (src ! i XOR 0x80) 7" by (simp add: bit_xor_iff)
  with i assms have "bit (?src ! i) 7" by simp
  moreover from assms have "len \<le> length ?src" by simp
  ultimately show "\<not> validate_ascii_fast ?src len"
    using i by (auto simp: validate_ascii_fast_iff)
qed

theorem validate_ascii_fast_correct_witness:
  "validate_ascii_fast (replicate 17 0x41) 17 \<and>
   \<not> validate_ascii_fast ((replicate 17 0x41)[16 := 0xC1]) 17 \<and>
   \<not> validate_ascii_fast ((replicate 17 0x41)[3 := 0xC1]) 16"
proof -
  let ?src = "replicate 17 (0x41 :: byte)"
  have len: "17 \<le> length ?src" and len16: "16 \<le> length ?src" by simp_all
  have b: "\<not> bit (0x41 :: byte) 7" by simp
  have x: "(0x41 :: byte) XOR 0x80 = 0xC1" by simp
  note c17 = validate_ascii_fast_correct [OF len]
  note c16 = validate_ascii_fast_correct [OF len16]
  from c17 b have "validate_ascii_fast ?src 17" by simp
  moreover from c17 have "16 < (17::nat) \<longrightarrow> \<not> bit (?src ! 16) 7 \<longrightarrow>
      \<not> validate_ascii_fast (?src[16 := ?src ! 16 XOR 0x80]) 17"
    by blast
  with b x have "\<not> validate_ascii_fast (?src[16 := 0xC1]) 17" by simp
  moreover from c16 have "3 < (16::nat) \<longrightarrow> \<not> bit (?src ! 3) 7 \<longrightarrow>
      \<not> validate_ascii_fast (?src[3 := ?src ! 3 XOR 0x80]) 16"
    by blast
  with b x have "\<not> validate_ascii_fast (?src[3 := 0xC1]) 16" by simp
  ultimately show ?thesis by blast
qed

section \<open>Correctness of the codec\<close>

subsection \<open>One group of eight characters\<close>

lemma mask7_bit_int: "bit (0x7F :: int) n \<longleftrightarrow> n < 7"
proof -
  have m: "(0x7F :: int) = mask 7" by (simp add: mask_eq_exp_minus_1)
  have "bit (mask 7 :: int) n \<longleftrightarrow> n < 7" by (auto simp: bit_mask_iff)
  then show ?thesis by (simp only: m)
qed

lemma mask8_bit_int: "bit (0xFF :: int) n \<longleftrightarrow> n < 8"
proof -
  have m: "(0xFF :: int) = mask 8" by (simp add: mask_eq_exp_minus_1)
  have "bit (mask 8 :: int) n \<longleftrightarrow> n < 8" by (auto simp: bit_mask_iff)
  then show ?thesis by (simp only: m)
qed

lemma pack_shifts_bit_gen:
  "bit (pack_shifts i val dest) j \<longleftrightarrow>
     bit dest j \<or> (i \<le> j div 7 \<and> j div 7 \<le> 7 \<and> bit val (j + (j div 7 - i + 1)))"
proof (induction i val dest rule: pack_shifts.induct)
  case (1 i val dest)
  show ?case
  proof (cases "i \<le> 7")
    case True
    have step: "pack_shifts i val dest =
        pack_shifts (i + 1) (drop_bit 1 val) (dest OR (drop_bit 1 val AND push_bit (7 * i) 0x7F))"
      using True by (simp add: pack_shifts.simps [of i] Let_def)
    have here: "7 * i \<le> j \<and> j - 7 * i < 7 \<longleftrightarrow> j div 7 = i"
      by auto
    have "bit (pack_shifts i val dest) j \<longleftrightarrow>
        (bit dest j \<or> (bit val (j + 1) \<and> j div 7 = i)) \<or>
        (i + 1 \<le> j div 7 \<and> j div 7 \<le> 7 \<and> bit val (j + (j div 7 - (i + 1) + 1) + 1))"
      unfolding step "1.IH" [OF True refl]
      using here by (auto simp: bit_or_iff bit_and_iff bit_drop_bit_eq bit_push_bit_iff mask7_bit_int
          dest: bit_imp_le_length)
    also have "\<dots> \<longleftrightarrow> bit dest j \<or> (i \<le> j div 7 \<and> j div 7 \<le> 7 \<and> bit val (j + (j div 7 - i + 1)))"
    proof -
      have "i + 1 \<le> j div 7 \<Longrightarrow> j + (j div 7 - (i + 1) + 1) + 1 = j + (j div 7 - i + 1)"
        by simp
      moreover have "j div 7 = i \<Longrightarrow> j + (j div 7 - i + 1) = j + 1"
        by simp
      moreover have "i \<le> j div 7 \<longleftrightarrow> j div 7 = i \<or> i + 1 \<le> j div 7"
        by auto
      ultimately show ?thesis
        using True by metis
    qed
    finally show ?thesis .
  next
    case False
    then have "pack_shifts i val dest = dest" by (simp add: pack_shifts.simps [of i])
    with False show ?thesis by auto
  qed
qed

lemma pack_shifts_bit:
  "bit (pack_shifts 1 v (v AND 0xFF)) j \<longleftrightarrow>
     (j < 8 \<and> bit v j) \<or> (7 \<le> j \<and> j < 56 \<and> bit v (j + j div 7))"
proof -
  have "1 \<le> j div 7 \<and> j div 7 \<le> 7 \<longleftrightarrow> 7 \<le> j \<and> j < 56" by auto
  then show ?thesis
    by (auto simp: pack_shifts_bit_gen bit_and_iff mask8_bit_int)
qed

lemma idx_low: "k + n < 7 \<Longrightarrow> (8 * k + n) div 7 = k \<and> (9 * k + n) div 8 = k \<and> (9 * k + n) mod 8 = k + n"
  for k n :: nat
  by (auto simp: div_nat_eqI mod_nat_eqI)

lemma idx_high: "7 \<le> k + n \<Longrightarrow> n < 8 \<Longrightarrow> k < 7 \<Longrightarrow>
    (8 * k + n) div 7 = k + 1 \<and> (9 * k + n + 1) div 8 = k + 1 \<and> (9 * k + n + 1) mod 8 = k + n - 7"
  for k n :: nat
  by (auto simp: div_nat_eqI mod_nat_eqI)

lemma packed_byte:
  assumes len: "a + 8 \<le> length mem"
    and ascii: "\<forall>i<8. \<not> bit (mem ! (a + i)) 7"
    and k: "k < 7"
  shows "(ucast (drop_bit (8 * k) (pack_shifts 1 (Load64 mem a) (Load64 mem a AND 0xFF))) :: byte)
         = conv_byte (mem ! (a + k)) (mem ! (a + k + 1)) k"
proof (rule bit_word_eqI)
  fix n assume "n < LENGTH(8)"
  then have n: "n < 8" by simp
  let ?v = "Load64 mem a"
  have L: "bit (ucast (drop_bit (8 * k) (pack_shifts 1 ?v (?v AND 0xFF))) :: byte) n \<longleftrightarrow>
      (8 * k + n < 8 \<and> bit ?v (8 * k + n)) \<or>
      (7 \<le> 8 * k + n \<and> bit ?v (8 * k + n + (8 * k + n) div 7))"
    using n k by (simp add: bit_ucast_iff bit_drop_bit_eq pack_shifts_bit [unfolded One_nat_def])
  have R: "bit (conv_byte (mem ! (a + k)) (mem ! (a + k + 1)) k) n \<longleftrightarrow>
      bit (mem ! (a + k)) (k + n) \<or> (7 - k \<le> n \<and> bit (mem ! (a + k + 1)) (n - (7 - k)))"
    using n by (simp add: conv_byte_def bit_or_iff bit_drop_bit_eq bit_push_bit_iff)
  show "bit (ucast (drop_bit (8 * k) (pack_shifts 1 ?v (?v AND 0xFF))) :: byte) n
      = bit (conv_byte (mem ! (a + k)) (mem ! (a + k + 1)) k) n"
  proof (cases "k + n < 7")
    case True
    from idx_low [OF True] have i: "(8 * k + n) div 7 = k" "(9 * k + n) div 8 = k" "(9 * k + n) mod 8 = k + n"
      by simp_all
    have e: "8 * k + n + k = 9 * k + n" by simp
    have v: "bit ?v (9 * k + n) \<longleftrightarrow> bit (mem ! (a + k)) (k + n)"
      using True len k by (simp add: Load64_bit i)
    have r: "\<not> 7 - k \<le> n" using True by simp
    show ?thesis
    proof (cases "k = 0")
      case True
      with \<open>k + n < 7\<close> v show ?thesis
        unfolding L R by simp
    next
      case False
      then have "\<not> 8 * k + n < 8" "7 \<le> 8 * k + n" by simp_all
      with v r show ?thesis
        unfolding L R i e by simp
    qed
  next
    case False
    then have ge: "7 \<le> k + n" by simp
    from idx_high [OF ge n k] have i: "(8 * k + n) div 7 = k + 1" "(9 * k + n + 1) div 8 = k + 1"
      "(9 * k + n + 1) mod 8 = k + n - 7"
      by simp_all
    have e: "8 * k + n + (k + 1) = 9 * k + n + 1" by simp
    from i have i': "Suc (9 * k + n) div 8 = Suc k" "Suc (9 * k + n) mod 8 = k + n - 7"
      by simp_all
    have "bit ?v (9 * k + n + 1) \<longleftrightarrow> bit (mem ! (a + k + 1)) (k + n - 7)"
      using ge len k n by (simp add: Load64_bit i')
    moreover have "\<not> bit (mem ! (a + k)) (k + n)"
    proof (cases "k + n = 7")
      case True
      with ascii k show ?thesis by simp
    next
      case False
      with ge have "8 \<le> k + n" by simp
      then show ?thesis by (auto dest: bit_imp_le_length)
    qed
    moreover have "\<not> (8 * k + n < 8 \<and> bit ?v (8 * k + n))"
    proof
      assume h: "8 * k + n < 8 \<and> bit ?v (8 * k + n)"
      with ge have "k = 0" "n = 7" by simp_all
      with h len have "bit (mem ! (a + 0)) 7" by (simp add: Load64_bit)
      with ascii show False by (metis zero_less_numeral)
    qed
    moreover have "k + n - 7 = n - (7 - k)" using ge k by simp
    moreover have "7 \<le> 8 * k + n" "7 - k \<le> n" using ge by simp_all
    ultimately show ?thesis
      unfolding L R i e by auto
  qed
qed

lemma conv_byte_bit:
  "bit (conv_byte c d k) n \<longleftrightarrow> n < 8 \<and> (bit c (k + n) \<or> (7 - k \<le> n \<and> bit d (n - (7 - k))))"
  by (auto simp: conv_byte_def bit_or_iff bit_drop_bit_eq bit_push_bit_iff dest: bit_imp_le_length)

lemma unpack_byte_bit:
  "bit (unpack_byte p src i) n \<longleftrightarrow>
     n < 8 \<and> ((8 - i + n < 8 \<and> bit p (8 - i + n)) \<or> (i \<le> n \<and> n < 7 \<and> bit src (n - i)))"
  by (auto simp: unpack_byte_def bit_ucast_iff bit_or_iff bit_and_iff bit_drop_bit_eq
      bit_push_bit_iff mask7_bit_int dest: bit_imp_le_length)

lemma byte_bit_ge8: "8 \<le> n \<Longrightarrow> \<not> bit (c :: byte) n"
  by (auto dest: bit_imp_le_length)

lemma unpack_pack_first:
  assumes "\<not> bit d 7"
  shows "unpack_byte p (conv_byte d e 0) 0 = d"
proof (rule bit_word_eqI)
  fix n assume "n < LENGTH(8)"
  then have n: "n < 8" by simp
  have "n < 7 \<or> n = 7" using n by auto
  with assms show "bit (unpack_byte p (conv_byte d e 0) 0) n = bit d n"
    by (auto simp: unpack_byte_bit conv_byte_bit)
qed

lemma unpack_pack_byte:
  assumes "\<not> bit c 7" "\<not> bit d 7" "0 < i" "i < 7"
  shows "unpack_byte (conv_byte c d (i - 1)) (conv_byte d e i) i = d"
proof (rule bit_word_eqI)
  fix n assume "n < LENGTH(8)"
  then have n: "n < 8" by simp
  show "bit (unpack_byte (conv_byte c d (i - 1)) (conv_byte d e i) i) n = bit d n"
  proof (cases "n < i")
    case True
    have "\<not> bit c (i - 1 + (8 - i + n))"
    proof (cases "n = 0")
      case True
      with assms have "i - 1 + (8 - i + n) = 7" by simp
      with assms show ?thesis by simp
    next
      case False
      with assms have "8 \<le> i - 1 + (8 - i + n)" by simp
      then show ?thesis by (rule byte_bit_ge8)
    qed
    moreover have "8 - i + n - (7 - (i - 1)) = n" using assms by simp
    moreover have "7 - (i - 1) \<le> 8 - i + n" using assms by simp
    moreover have "8 - i + n < 8" using True assms by simp
    ultimately show ?thesis
      using True n by (simp add: unpack_byte_bit conv_byte_bit)
  next
    case False
    then have le: "i \<le> n" by simp
    have "\<not> 8 - i + n < 8" using le assms by simp
    moreover have "n < 7 \<Longrightarrow> \<not> 7 - i \<le> n - i" using le by simp
    moreover have "n < 7 \<or> n = 7" using n by auto
    moreover have "i + (n - i) = n" using le by simp
    ultimately show ?thesis
      using le n assms by (auto simp: unpack_byte_bit conv_byte_bit)
  qed
qed

lemma unpack_pack_last:
  assumes "\<not> bit c 7" "\<not> bit d 7"
  shows "drop_bit 1 (conv_byte c d 6) = d"
proof (rule bit_word_eqI)
  fix n assume "n < LENGTH(8)"
  then have n: "n < 8" by simp
  have "n < 7 \<or> n = 7" using n by auto
  moreover have "\<not> bit c (6 + (n + 1))"
  proof (cases "n = 0")
    case True with assms show ?thesis by simp
  next
    case False
    then have "8 \<le> 6 + (n + 1)" by simp
    then show ?thesis by (rule byte_bit_ge8)
  qed
  ultimately show "bit (drop_bit 1 (conv_byte c d 6)) n = bit d n"
    using assms by (auto simp: bit_drop_bit_eq conv_byte_bit)
qed

subsection \<open>Stores into a buffer\<close>

lemma store_bytes_length [simp]: "length (store_bytes buf p bs) = length buf"
  by (auto simp: store_bytes_def min_def)

lemma store_bytes_Nil [simp]: "store_bytes buf p [] = buf"
  by (simp add: store_bytes_def)

lemma store_bytes_in_range:
  "p + length bs \<le> length buf \<Longrightarrow> store_bytes buf p bs = take p buf @ bs @ drop (p + length bs) buf"
  by (simp add: store_bytes_def)

lemma store_bytes_single:
  "p < length buf \<Longrightarrow> buf[p := v] = store_bytes buf p [v]"
  by (simp add: store_bytes_in_range upd_conv_take_nth_drop)

lemma store_bytes_append:
  assumes "p + length bs + length cs \<le> length buf"
  shows "store_bytes (store_bytes buf p bs) (p + length bs) cs = store_bytes buf p (bs @ cs)"
proof -
  from assms have 1: "p + length bs \<le> length buf" by simp
  have "store_bytes (store_bytes buf p bs) (p + length bs) cs
      = take (p + length bs) (take p buf @ bs @ drop (p + length bs) buf) @ cs
          @ drop (p + length bs + length cs) (take p buf @ bs @ drop (p + length bs) buf)"
    using assms by (simp add: store_bytes_in_range [OF 1] store_bytes_in_range)
  also have "take (p + length bs) (take p buf @ bs @ drop (p + length bs) buf) = take p buf @ bs"
    using 1 by simp
  also have "drop (p + length bs + length cs) (take p buf @ bs @ drop (p + length bs) buf)
      = drop (p + length bs + length cs) buf"
    using assms by (simp add: add.commute)
  finally show ?thesis
    using assms by (simp add: store_bytes_in_range add.assoc)
qed

subsection \<open>What \<open>ascii_pack\<close> writes\<close>

lemma pack8_length [simp]: "length (pack8 t) = 7"
  by (simp add: pack8_def)

lemma ascii_pack_tail_eq:
  "ascii \<le> lim \<Longrightarrow> lim \<le> length mem \<Longrightarrow> b + (lim - ascii) \<le> length bin \<Longrightarrow>
   ascii_pack_tail mem ascii lim bin b = store_bytes bin b (take (lim - ascii) (drop ascii mem))"
proof (induction mem ascii lim bin b rule: ascii_pack_tail.induct)
  case (1 mem ascii lim bin b)
  show ?case
  proof (cases "ascii < lim")
    case True
    with "1.prems" have b: "b < length bin" by simp
    from True "1.prems" have a: "ascii < length mem" by simp
    have "ascii_pack_tail mem ascii lim bin b
        = ascii_pack_tail mem (ascii + 1) lim (bin[b := mem ! ascii]) (b + 1)"
      using True by (simp add: ascii_pack_tail.simps [of mem ascii])
    also have "\<dots> = store_bytes (bin[b := mem ! ascii]) (b + 1)
        (take (lim - (ascii + 1)) (drop (ascii + 1) mem))"
      using True "1.prems" by (intro "1.IH") simp_all
    also have "\<dots> = store_bytes (store_bytes bin b [mem ! ascii]) (b + length [mem ! ascii])
        (take (lim - (ascii + 1)) (drop (ascii + 1) mem))"
      using b by (simp add: store_bytes_single)
    also have "\<dots> = store_bytes bin b ([mem ! ascii] @ take (lim - (ascii + 1)) (drop (ascii + 1) mem))"
      using True "1.prems" by (intro store_bytes_append) simp
    also have "[mem ! ascii] @ take (lim - (ascii + 1)) (drop (ascii + 1) mem)
        = take (lim - ascii) (drop ascii mem)"
    proof -
      from True obtain n where n: "lim - ascii = Suc n" by (cases "lim - ascii") simp_all
      then have "lim - (ascii + 1) = n" by simp
      with a n show ?thesis
        by (simp add: Cons_nth_drop_Suc [symmetric])
    qed
    finally show ?thesis .
  next
    case False
    then have "ascii_pack_tail mem ascii lim bin b = bin"
      by (simp add: ascii_pack_tail.simps [of mem ascii])
    with False "1.prems" show ?thesis by simp
  qed
qed

lemma le_bytes_pack8:
  assumes "a + 8 \<le> length mem" "\<forall>i<8. \<not> bit (mem ! (a + i)) 7"
  shows "le_bytes 7 (pack_shifts 1 (Load64 mem a) (Load64 mem a AND 0xFF)) = pack8 (drop a mem)"
  unfolding le_bytes_def pack8_def
proof (rule map_cong [OF refl])
  fix k assume "k \<in> set [0..<7]"
  then have k: "k < 7" by simp
  from packed_byte [OF assms k] k assms(1)
  show "(ucast (drop_bit (8 * k) (pack_shifts 1 (Load64 mem a) (Load64 mem a AND 0xFF))) :: byte)
      = conv_byte (drop a mem ! k) (drop a mem ! (k + 1)) k"
    by (simp add: add.assoc)
qed

lemma pack8_take: "8 \<le> n \<Longrightarrow> pack8 (take n s) = pack8 s"
  by (simp add: pack8_def)

lemma all_ascii_nth: "all_ascii s \<Longrightarrow> i < length s \<Longrightarrow> \<not> bit (s ! i) 7"
  by (simp add: all_ascii_def)

lemma ascii_pack_eq:
  assumes "ascii + len \<le> length mem"
    and "all_ascii (take len (drop ascii mem))"
    and "b + length (pack_spec (take len (drop ascii mem))) \<le> length bin"
  shows "ascii_pack mem ascii len bin b = store_bytes bin b (pack_spec (take len (drop ascii mem)))"
proof -
  have "ascii \<le> lim \<Longrightarrow> lim \<le> length mem \<Longrightarrow> all_ascii (take (lim - ascii) (drop ascii mem)) \<Longrightarrow>
      b + length (pack_spec (take (lim - ascii) (drop ascii mem))) \<le> length bin \<Longrightarrow>
      (case ascii_pack_blocks mem ascii lim bin b of (a', b', bin') \<Rightarrow> ascii_pack_tail mem a' lim bin' b')
        = store_bytes bin b (pack_spec (take (lim - ascii) (drop ascii mem)))" for lim
  proof (induction mem ascii lim bin b rule: ascii_pack_blocks.induct)
    case (1 mem ascii lim bin b)
    let ?s = "take (lim - ascii) (drop ascii mem)"
    show ?case
    proof (cases "ascii + 8 \<le> lim")
      case True
      let ?d = "pack_shifts 1 (Load64 mem ascii) (Load64 mem ascii AND 0xFF)"
      let ?bin = "store_bytes bin b (le_bytes 7 ?d)"
      let ?r = "take (lim - (ascii + 8)) (drop (ascii + 8) mem)"
      have len: "8 \<le> length ?s" using True "1.prems" by simp
      have ps: "pack_spec ?s = pack8 ?s @ pack_spec ?r"
        using len by (simp add: pack_spec.simps [of ?s] drop_take add.commute)
      have asc: "\<forall>i<8. \<not> bit (mem ! (ascii + i)) 7"
      proof (intro allI impI)
        fix i :: nat assume i: "i < 8"
        with len have "i < length ?s" by simp
        from all_ascii_nth [OF "1.prems"(3) this] i True "1.prems"
        show "\<not> bit (mem ! (ascii + i)) 7" by simp
      qed
      have a8: "ascii + 8 \<le> length mem" using True "1.prems" by simp
      have lb: "le_bytes 7 ?d = pack8 ?s"
        using le_bytes_pack8 [OF a8 asc] True
        by (simp add: pack8_take [of "lim - ascii" "drop ascii mem"])
      have r_ascii: "all_ascii ?r"
      proof -
        have "?r = drop 8 ?s" by (simp add: drop_take add.commute)
        with "1.prems"(3) show ?thesis
          by (auto simp: all_ascii_def dest: in_set_dropD)
      qed
      have fits: "b + 7 + length (pack_spec ?r) \<le> length bin"
        using "1.prems"(4) by (simp add: ps)
      have "(case ascii_pack_blocks mem ascii lim bin b of (a', b', bin') \<Rightarrow> ascii_pack_tail mem a' lim bin' b')
          = (case ascii_pack_blocks mem (ascii + 8) lim ?bin (b + 7) of (a', b', bin') \<Rightarrow>
               ascii_pack_tail mem a' lim bin' b')"
        using True by (simp add: ascii_pack_blocks.simps [of mem ascii] Let_def)
      also have "\<dots> = store_bytes ?bin (b + 7) (pack_spec ?r)"
        using True "1.prems" r_ascii fits by (intro "1.IH" [OF True refl refl]) simp_all
      also have "\<dots> = store_bytes (store_bytes bin b (pack8 ?s)) (b + length (pack8 ?s)) (pack_spec ?r)"
        unfolding lb by simp
      also have "\<dots> = store_bytes bin b (pack8 ?s @ pack_spec ?r)"
        using fits by (intro store_bytes_append) simp
      finally show ?thesis by (simp add: ps)
    next
      case False
      then have short: "\<not> 8 \<le> length ?s" using "1.prems" by simp
      then have ps: "pack_spec ?s = ?s"
        by (subst pack_spec.simps) (simp only: if_False)
      have "(case ascii_pack_blocks mem ascii lim bin b of (a', b', bin') \<Rightarrow> ascii_pack_tail mem a' lim bin' b')
          = ascii_pack_tail mem ascii lim bin b"
        using False by (simp add: ascii_pack_blocks.simps [of mem ascii])
      also have "\<dots> = store_bytes bin b ?s"
        using "1.prems" by (intro ascii_pack_tail_eq) (simp_all add: ps)
      finally show ?thesis by (simp add: ps)
    qed
  qed
  from this [of "ascii + len"] assms show ?thesis
    by (simp add: ascii_pack_def Let_def)
qed

subsection \<open>What \<open>ascii_unpack\<close> writes\<close>

lemma store_bytes_snoc:
  assumes "p + length bs < length buf"
  shows "(store_bytes buf p bs)[p + length bs := v] = store_bytes buf p (bs @ [v])"
proof -
  have "(store_bytes buf p bs)[p + length bs := v] = store_bytes (store_bytes buf p bs) (p + length bs) [v]"
    using assms by (intro store_bytes_single) simp
  also have "\<dots> = store_bytes buf p (bs @ [v])"
    using assms by (intro store_bytes_append) simp
  finally show ?thesis .
qed

lemma unpack_group_gen:
  assumes "a + 7 \<le> length out" "b + 7 \<le> length bin" "i \<le> 7" "length bs = i"
    and "p = (if i = 0 then p0 else bin ! (b + i - 1))"
  shows "unpack_group bin (b + i) i p (store_bytes out a bs) (a + i)
       = (b + 7, (if i = 7 then p else bin ! (b + 6)),
          store_bytes out a (bs @ map (group_byte (drop b bin) p0) [i..<7]), a + 7)"
  using assms
proof (induction "7 - i" arbitrary: i p bs)
  case 0
  then have "i = 7" by simp
  then show ?case by (simp add: unpack_group.simps [of bin "b + 7"])
next
  case (Suc n)
  then have i: "i < 7" by simp
  let ?c = "unpack_byte p (bin ! (b + i)) i"
  let ?g = "group_byte (drop b bin) p0"
  have c: "?c = ?g i"
  proof (cases "i = 0")
    case True
    with Suc.prems show ?thesis by (simp add: group_byte_def)
  next
    case False
    then have "b + i - 1 = b + (i - 1)" by simp
    with False Suc.prems i show ?thesis by (simp add: group_byte_def)
  qed
  have upd: "(store_bytes out a bs)[a + i := ?c] = store_bytes out a (bs @ [?c])"
    using store_bytes_snoc [of a bs out ?c] Suc.prems i by simp
  have "unpack_group bin (b + i) i p (store_bytes out a bs) (a + i)
      = unpack_group bin (b + (i + 1)) (i + 1) (bin ! (b + i)) (store_bytes out a (bs @ [?c])) (a + (i + 1))"
    using i by (simp add: unpack_group.simps [of bin "b + i"] Let_def unpack_byte_def [symmetric] upd)
  also have "\<dots> = (b + 7, (if i + 1 = 7 then bin ! (b + i) else bin ! (b + 6)),
      store_bytes out a ((bs @ [?c]) @ map ?g [i + 1..<7]), a + 7)"
  proof (rule Suc.hyps(1))
    show "n = 7 - (i + 1)" using Suc.hyps(2) by simp
    show "a + 7 \<le> length out" "b + 7 \<le> length bin" by fact+
    show "i + 1 \<le> 7" using i by simp
    show "length (bs @ [?c]) = i + 1" using Suc.prems by simp
    show "bin ! (b + i) = (if i + 1 = 0 then p0 else bin ! (b + (i + 1) - 1))" by simp
  qed
  also have "(bs @ [?c]) @ map ?g [i + 1..<7] = bs @ map ?g [i..<7]"
    using i by (simp add: c upt_conv_Cons)
  also have "(if i + 1 = 7 then bin ! (b + i) else bin ! (b + 6)) = bin ! (b + 6)"
    by auto
  finally show ?case using i by simp
qed

lemma unpack_byte_first: "unpack_byte p src 0 = unpack_byte 0 src 0"
  by (rule bit_word_eqI) (simp add: unpack_byte_bit)

lemma unpack8_eq:
  "map (group_byte q p0) [0..<7] @ [drop_bit 1 (q ! 6)] = unpack8 q"
proof -
  have "group_byte q p0 k = group_byte q 0 k" for k
    by (cases "k = 0") (simp_all add: group_byte_def unpack_byte_first [of p0])
  then show ?thesis by (simp add: unpack8_def)
qed

lemma unpack8_length [simp]: "length (unpack8 q) = 8"
  by (simp add: unpack8_def)

lemma unpack_block:
  assumes "a + 8 \<le> length out" "b + 7 \<le> length bin"
    and "unpack_group bin b 0 p out a = (b', p', o', a')"
  shows "b' = b + 7" and "o'[a' := drop_bit 1 p'] = store_bytes out a (unpack8 (drop b bin))"
    and "a' + 1 = a + 8"
proof -
  let ?g = "map (group_byte (drop b bin) p) [0..<7]"
  have "unpack_group bin (b + 0) 0 p (store_bytes out a []) (a + 0)
      = (b + 7, (if (0::nat) = 7 then p else bin ! (b + 6)), store_bytes out a ([] @ ?g), a + 7)"
    using assms(1,2) by (intro unpack_group_gen) simp_all
  then have "unpack_group bin b 0 p out a = (b + 7, bin ! (b + 6), store_bytes out a ?g, a + 7)"
    by simp
  with assms(3) have g: "b' = b + 7" "p' = bin ! (b + 6)" "o' = store_bytes out a ?g" "a' = a + 7"
    by simp_all
  show "b' = b + 7" by fact
  show "a' + 1 = a + 8" using g by simp
  have "(store_bytes out a ?g)[a + length ?g := drop_bit 1 (bin ! (b + 6))]
      = store_bytes out a (?g @ [drop_bit 1 (bin ! (b + 6))])"
    using assms by (intro store_bytes_snoc) simp
  moreover have "drop b bin ! 6 = bin ! (b + 6)" using assms by simp
  ultimately have "(store_bytes out a ?g)[a + 7 := drop_bit 1 (bin ! (b + 6))]
      = store_bytes out a (unpack8 (drop b bin))"
    using unpack8_eq [of "drop b bin" p] by simp
  then show "o'[a' := drop_bit 1 p'] = store_bytes out a (unpack8 (drop b bin))"
    by (simp only: g)
qed

lemma packed_len_step: "8 \<le> n \<Longrightarrow> packed_len n = 7 + packed_len (n - 8)"
  by (simp add: packed_len_def le_div_geq [of 8 n] le_mod_geq [of 8 n])

lemma packed_len_small: "n < 8 \<Longrightarrow> packed_len n = n"
  by (simp add: packed_len_def)

lemma pack_spec_length: "length (pack_spec s) = packed_len (length s)"
proof (induction s rule: pack_spec.induct)
  case (1 s)
  show ?case
  proof (cases "8 \<le> length s")
    case True
    with "1.IH" [OF True] show ?thesis
      by (simp add: pack_spec.simps [of s] packed_len_step)
  next
    case False
    then show ?thesis by (simp add: pack_spec.simps [of s] packed_len_def)
  qed
qed

lemma unpack_spec_length: "packed_len n \<le> length q \<Longrightarrow> length (unpack_spec q n) = n"
proof (induction q n rule: unpack_spec.induct)
  case (1 q n)
  show ?case
  proof (cases "8 \<le> n")
    case True
    with "1.prems" have "packed_len (n - 8) \<le> length (drop 7 q)"
      by (simp add: packed_len_step)
    from "1.IH" [OF True this] True show ?thesis
      by (simp add: unpack_spec.simps [of q n])
  next
    case False
    with "1.prems" show ?thesis
      by (simp add: unpack_spec.simps [of q n] packed_len_def)
  qed
qed

lemma ascii_unpack_tail_eq:
  "i \<le> n \<Longrightarrow> b + (n - i) \<le> length bin \<Longrightarrow> a + (n - i) \<le> length out \<Longrightarrow>
   ascii_unpack_tail bin b i n out a = store_bytes out a (take (n - i) (drop b bin))"
proof (induction bin b i n out a rule: ascii_unpack_tail.induct)
  case (1 bin b i n out a)
  show ?case
  proof (cases "i < n")
    case True
    with "1.prems" have a: "a < length out" and b: "b < length bin" by simp_all
    have "ascii_unpack_tail bin b i n out a
        = ascii_unpack_tail bin (b + 1) (i + 1) n (out[a := bin ! b]) (a + 1)"
      using True by (simp add: ascii_unpack_tail.simps [of bin b i])
    also have "\<dots> = store_bytes (out[a := bin ! b]) (a + 1) (take (n - (i + 1)) (drop (b + 1) bin))"
      using True "1.prems" by (intro "1.IH") simp_all
    also have "\<dots> = store_bytes (store_bytes out a [bin ! b]) (a + length [bin ! b])
        (take (n - (i + 1)) (drop (b + 1) bin))"
      using a by (simp add: store_bytes_single)
    also have "\<dots> = store_bytes out a ([bin ! b] @ take (n - (i + 1)) (drop (b + 1) bin))"
      using True "1.prems" by (intro store_bytes_append) simp
    also have "[bin ! b] @ take (n - (i + 1)) (drop (b + 1) bin) = take (n - i) (drop b bin)"
    proof -
      from True obtain m where m: "n - i = Suc m" by (cases "n - i") simp_all
      then have "n - (i + 1) = m" by simp
      with b m show ?thesis
        by (simp add: Cons_nth_drop_Suc [symmetric])
    qed
    finally show ?thesis .
  next
    case False
    then have "ascii_unpack_tail bin b i n out a = out"
      by (simp add: ascii_unpack_tail.simps [of bin b i])
    with False "1.prems" show ?thesis by simp
  qed
qed

lemma ascii_unpack_eq:
  assumes "b + packed_len n \<le> length bin" "a + n \<le> length out"
  shows "ascii_unpack bin b n out a = Inr (store_bytes out a (unpack_spec (drop b bin) n))"
proof -
  have "b + packed_len n \<le> length bin \<Longrightarrow> a + n \<le> length out \<Longrightarrow>
      (case ascii_unpack_blocks bin b n p out a of (b', n', out', a') \<Rightarrow>
         if n' < 8 then Inr (ascii_unpack_tail bin b' 0 n' out' a') else Inl CheckFailed)
        = Inr (store_bytes out a (unpack_spec (drop b bin) n))" for p
  proof (induction bin b n p out a rule: ascii_unpack_blocks.induct)
    case (1 bin b n p out a)
    show ?case
    proof (cases "8 \<le> n")
      case True
      with "1.prems" have b7: "b + 7 \<le> length bin" and rest: "b + 7 + packed_len (n - 8) \<le> length bin"
        by (simp_all add: packed_len_step)
      from True "1.prems" have a8: "a + 8 \<le> length out" by simp
      let ?out = "store_bytes out a (unpack8 (drop b bin))"
      let ?rec = "unpack_spec (drop (b + 7) bin) (n - 8)"
      obtain b' p' o' a' where g: "unpack_group bin b 0 p out a = (b', p', o', a')"
        by (cases "unpack_group bin b 0 p out a") auto
      note blk = unpack_block [OF a8 b7 g]
      have lr: "length ?rec = n - 8"
        using rest by (intro unpack_spec_length) simp
      have "(case ascii_unpack_blocks bin b n p out a of (b', n', out', a') \<Rightarrow>
               if n' < 8 then Inr (ascii_unpack_tail bin b' 0 n' out' a') else Inl CheckFailed)
          = (case ascii_unpack_blocks bin b' (n - 8) p' (o'[a' := drop_bit 1 p']) (a' + 1)
               of (b', n', out', a') \<Rightarrow>
               if n' < 8 then Inr (ascii_unpack_tail bin b' 0 n' out' a') else Inl CheckFailed)"
        using True by (simp add: ascii_unpack_blocks.simps [of bin b n] g)
      also have "\<dots> = Inr (store_bytes (o'[a' := drop_bit 1 p']) (a' + 1) (unpack_spec (drop b' bin) (n - 8)))"
      proof (rule "1.IH" [OF True g [symmetric] refl refl refl])
        show "b' + packed_len (n - 8) \<le> length bin" using rest blk by simp
        show "a' + 1 + (n - 8) \<le> length (o'[a' := drop_bit 1 p'])"
          using "1.prems" True blk by simp
      qed
      also have "store_bytes (o'[a' := drop_bit 1 p']) (a' + 1) (unpack_spec (drop b' bin) (n - 8))
          = store_bytes ?out (a + length (unpack8 (drop b bin))) ?rec"
        unfolding blk by simp
      also have "\<dots> = store_bytes out a (unpack8 (drop b bin) @ ?rec)"
        using "1.prems" True lr by (intro store_bytes_append) simp
      also have "unpack8 (drop b bin) @ ?rec = unpack_spec (drop b bin) n"
        using True by (simp add: unpack_spec.simps [of "drop b bin" n] add.commute)
      finally show ?thesis .
    next
      case False
      then have n: "n < 8" by simp
      then have pl: "packed_len n = n" by (simp add: packed_len_def)
      have "(case ascii_unpack_blocks bin b n p out a of (b', n', out', a') \<Rightarrow>
               if n' < 8 then Inr (ascii_unpack_tail bin b' 0 n' out' a') else Inl CheckFailed)
          = Inr (ascii_unpack_tail bin b 0 n out a)"
        using n by (simp add: ascii_unpack_blocks.simps [of bin b n])
      also have "ascii_unpack_tail bin b 0 n out a = store_bytes out a (take (n - 0) (drop b bin))"
        using "1.prems" pl by (intro ascii_unpack_tail_eq) simp_all
      also have "take (n - 0) (drop b bin) = unpack_spec (drop b bin) n"
        using n by (simp add: unpack_spec.simps [of "drop b bin" n])
      finally show ?thesis .
    qed
  qed
  from this [OF assms] show ?thesis
    by (simp add: ascii_unpack_def)
qed

subsection \<open>Unpacking a packed string\<close>

lemma unpack8_pack8:
  assumes "8 \<le> length t" "all_ascii t"
  shows "unpack8 (pack8 t @ rest) = take 8 t"
proof (rule nth_equalityI)
  show "length (unpack8 (pack8 t @ rest)) = length (take 8 t)"
    using assms by simp
next
  fix i assume "i < length (unpack8 (pack8 t @ rest))"
  then have i: "i < 8" by simp
  let ?q = "pack8 t @ rest"
  have a: "\<not> bit (t ! j) 7" if "j < 8" for j
    using that assms by (intro all_ascii_nth) simp_all
  have q: "?q ! k = conv_byte (t ! k) (t ! (k + 1)) k" if "k < 7" for k
    using that by (simp add: nth_append pack8_def)
  show "unpack8 ?q ! i = take 8 t ! i"
  proof (cases "i < 7")
    case True
    then have u: "unpack8 ?q ! i = group_byte ?q 0 i"
      by (simp add: unpack8_def nth_append)
    show ?thesis
    proof (cases "i = 0")
      case True
      with u q [of 0] a [of 0] show ?thesis
        by (simp add: group_byte_def unpack_pack_first)
    next
      case False
      with True have i1: "i - 1 < 7" "0 < i" "i - 1 + 1 = i" "i - 1 < 8" by simp_all
      have "unpack_byte (conv_byte (t ! (i - 1)) (t ! i) (i - 1)) (conv_byte (t ! i) (t ! (i + 1)) i) i
          = t ! i"
        using a [OF i1(4)] a [OF i] i1(2) True by (rule unpack_pack_byte)
      moreover have "group_byte ?q 0 i = unpack_byte (?q ! (i - 1)) (?q ! i) i"
        using False by (simp add: group_byte_def)
      moreover have "?q ! (i - 1) = conv_byte (t ! (i - 1)) (t ! i) (i - 1)"
        using q [OF i1(1)] i1(3) by simp
      ultimately show ?thesis
        using u q [OF True] i by simp
    qed
  next
    case False
    with i have i7: "i = 7" by simp
    have "unpack8 ?q ! 7 = drop_bit 1 (?q ! 6)"
      by (simp add: unpack8_def nth_append)
    also have "\<dots> = drop_bit 1 (conv_byte (t ! 6) (t ! 7) 6)"
      using q [of 6] by simp
    also have "\<dots> = t ! 7"
      using a [of 6] a [of 7] by (intro unpack_pack_last) simp_all
    finally show ?thesis using i7 by simp
  qed
qed

lemma all_ascii_drop: "all_ascii s \<Longrightarrow> all_ascii (drop n s)"
  by (auto simp: all_ascii_def dest: in_set_dropD)

lemma unpack_pack_spec:
  "all_ascii s \<Longrightarrow> unpack_spec (pack_spec s @ rest) (length s) = s"
proof (induction s rule: pack_spec.induct)
  case (1 s)
  show ?case
  proof (cases "8 \<le> length s")
    case True
    have ps: "pack_spec s = pack8 s @ pack_spec (drop 8 s)"
      using True by (simp add: pack_spec.simps [of s])
    have "unpack_spec (pack_spec s @ rest) (length s)
        = unpack8 (pack8 s @ pack_spec (drop 8 s) @ rest)
          @ unpack_spec (drop 7 (pack8 s @ pack_spec (drop 8 s) @ rest)) (length s - 8)"
      using True by (simp add: ps unpack_spec.simps [of _ "length s"])
    also have "unpack8 (pack8 s @ pack_spec (drop 8 s) @ rest) = take 8 s"
      using True "1.prems" by (rule unpack8_pack8)
    also have "drop 7 (pack8 s @ pack_spec (drop 8 s) @ rest) = pack_spec (drop 8 s) @ rest"
      by simp
    also have "unpack_spec (pack_spec (drop 8 s) @ rest) (length s - 8) = drop 8 s"
      using "1.IH" [OF True all_ascii_drop [OF "1.prems"]] by simp
    finally show ?thesis by simp
  next
    case False
    then show ?thesis
      by (simp add: pack_spec.simps [of s] unpack_spec.simps [of _ "length s"])
  qed
qed

lemma pack_spec_inj:
  assumes "all_ascii s" "all_ascii t" "length s = length t" "pack_spec s = pack_spec t"
  shows "s = t"
proof -
  have "s = unpack_spec (pack_spec s @ []) (length s)"
    using assms(1) by (simp only: unpack_pack_spec)
  also have "\<dots> = unpack_spec (pack_spec t @ []) (length t)"
    using assms by simp
  also have "\<dots> = t"
    using assms(2) by (simp only: unpack_pack_spec)
  finally show ?thesis .
qed

lemma ascii_pack_buffer:
  assumes "all_ascii s" and "packed_len (length s) \<le> length bin"
  shows "ascii_pack s 0 (length s) bin 0 = pack_spec s @ drop (packed_len (length s)) bin"
proof -
  have lp: "length (pack_spec s) = packed_len (length s)" by (rule pack_spec_length)
  have "ascii_pack s 0 (length s) bin 0 = store_bytes bin 0 (pack_spec (take (length s) (drop 0 s)))"
    using assms lp by (intro ascii_pack_eq) simp_all
  then show ?thesis
    using assms lp by (simp add: store_bytes_in_range)
qed

lemma ascii_unpack_buffer:
  assumes "all_ascii s" and "length s \<le> length out"
  shows "ascii_unpack (pack_spec s @ rest) 0 (length s) out 0 = Inr (s @ drop (length s) out)"
proof -
  have lp: "length (pack_spec s) = packed_len (length s)" by (rule pack_spec_length)
  have "ascii_unpack (pack_spec s @ rest) 0 (length s) out 0
      = Inr (store_bytes out 0 (unpack_spec (drop 0 (pack_spec s @ rest)) (length s)))"
    using assms lp by (intro ascii_unpack_eq) simp_all
  also have "unpack_spec (drop 0 (pack_spec s @ rest)) (length s) = s"
    using assms(1) by (simp add: unpack_pack_spec)
  also have "store_bytes out 0 s = s @ drop (length s) out"
    using assms by (simp add: store_bytes_in_range)
  finally show ?thesis .
qed

text \<open>
  Claim C2. For every string \<open>s\<close> of 7-bit bytes, of any length, \<open>ascii_pack\<close> of \<open>s\<close>
  followed by \<open>ascii_unpack\<close> of the packed bytes with the same length writes \<open>s\<close> back:
  the check between the two loops of \<open>ascii_unpack\<close> passes and the first \<open>length s\<close>
  bytes of the destination are \<open>s\<close>. The buffers are as large as the caller must make
  them: \<open>packed_len (length s)\<close> bytes for the packed form and \<open>length s\<close> for the
  destination.
\<close>

theorem ascii_pack_unpack_roundtrip:
  assumes "all_ascii s"
    and "packed_len (length s) \<le> length bin"
    and "length s \<le> length out"
  shows "ascii_unpack (ascii_pack s 0 (length s) bin 0) 0 (length s) out 0
         = Inr (s @ drop (length s) out)"
proof -
  have "ascii_pack s 0 (length s) bin 0 = pack_spec s @ drop (packed_len (length s)) bin"
    using assms(1,2) by (rule ascii_pack_buffer)
  moreover have "ascii_unpack (pack_spec s @ drop (packed_len (length s)) bin) 0 (length s) out 0
      = Inr (s @ drop (length s) out)"
    using assms(1,3) by (rule ascii_unpack_buffer)
  ultimately show ?thesis by simp
qed

theorem ascii_pack_unpack_roundtrip_witness:
  "ascii_unpack (ascii_pack [0x61, 0x62, 0x63, 0x64, 0x65, 0x66, 0x67, 0x68, 0x69] 0 9 (replicate 8 0) 0)
     0 9 (replicate 9 0) 0
   = Inr [0x61, 0x62, 0x63, 0x64, 0x65, 0x66, 0x67, 0x68, 0x69]"
proof -
  let ?s = "[0x61, 0x62, 0x63, 0x64, 0x65, 0x66, 0x67, 0x68, 0x69] :: byte list"
  have len: "length ?s = 9" by simp
  have a: "all_ascii ?s" by (simp add: all_ascii_def)
  have l: "packed_len (length ?s) \<le> length (replicate 8 (0 :: byte))" by (simp add: packed_len_def)
  have o: "length ?s \<le> length (replicate 9 (0 :: byte))" by simp
  have d: "?s @ drop 9 (replicate 9 (0 :: byte)) = ?s" by simp
  from ascii_pack_unpack_roundtrip [OF a l o, unfolded len d] show ?thesis .
qed

subsection \<open>What \<open>compare_packed\<close> compares\<close>

lemma char_conv_ascii:
  assumes "\<not> bit c0 7" "\<not> bit c1 7" "i < 7"
  shows "char_conv c0 c1 i = conv_byte c0 c1 i"
proof (rule bit_word_eqI)
  fix n assume "n < LENGTH(8)"
  then have n: "n < 8" by simp
  have l: "bit (signed_drop_bit i (scast c0 :: 32 word)) n \<longleftrightarrow> bit c0 (i + n)"
  proof -
    have "bit (signed_drop_bit i (scast c0 :: 32 word)) n \<longleftrightarrow> bit c0 (min 7 (i + n))"
      using n assms(3) by (simp add: bit_signed_drop_bit_iff bit_signed_iff)
    also have "\<dots> \<longleftrightarrow> bit c0 (i + n)"
    proof (cases "i + n < 7")
      case True
      then show ?thesis by (simp add: min_def)
    next
      case False
      then have "min 7 (i + n) = 7" by simp
      moreover have "\<not> bit c0 (i + n)"
      proof (cases "i + n = 7")
        case True with assms show ?thesis by simp
      next
        case False
        with \<open>\<not> i + n < 7\<close> have "8 \<le> i + n" by simp
        then show ?thesis by (rule byte_bit_ge8)
      qed
      ultimately show ?thesis using assms by simp
    qed
    finally show ?thesis .
  qed
  have r: "bit (push_bit (7 - i) (scast c1 :: 32 word)) n \<longleftrightarrow> 7 - i \<le> n \<and> bit c1 (n - (7 - i))"
  proof -
    have "n - (7 - i) \<le> 7" using n by simp
    then have "min 7 (n - (7 - i)) = n - (7 - i)" by simp
    then show ?thesis
      using n by (auto simp: bit_push_bit_iff bit_signed_iff)
  qed
  show "bit (char_conv c0 c1 i) n = bit (conv_byte c0 c1 i) n"
    using n by (simp add: char_conv_def bit_ucast_iff bit_or_iff l r conv_byte_bit)
qed

lemma compare_group_gen:
  assumes "i \<le> 7"
  shows "compare_group packed (p + i) mem (a + i) i res
       = (p + 7, a + 7,
          res \<and> (\<forall>k. i \<le> k \<and> k < 7 \<longrightarrow> char_conv (mem ! (a + k)) (mem ! (a + k + 1)) k = packed ! (p + k)))"
  using assms
proof (induction "7 - i" arbitrary: i res)
  case 0
  then have "i = 7" by simp
  then show ?case by (auto simp: compare_group.simps [of packed "p + 7"])
next
  case (Suc n)
  then have i: "i < 7" by simp
  let ?P = "\<lambda>k. char_conv (mem ! (a + k)) (mem ! (a + k + 1)) k = packed ! (p + k)"
  have "compare_group packed (p + i) mem (a + i) i res
      = compare_group packed (p + (i + 1)) mem (a + (i + 1)) (i + 1) (res \<and> ?P i)"
    using i by (simp add: compare_group.simps [of packed "p + i"] Let_def char_conv_def add.assoc)
  also have "\<dots> = (p + 7, a + 7, (res \<and> ?P i) \<and> (\<forall>k. i + 1 \<le> k \<and> k < 7 \<longrightarrow> ?P k))"
    using Suc.hyps(2) i by (intro Suc.hyps(1)) simp_all
  also have "((res \<and> ?P i) \<and> (\<forall>k. i + 1 \<le> k \<and> k < 7 \<longrightarrow> ?P k))
      \<longleftrightarrow> (res \<and> (\<forall>k. i \<le> k \<and> k < 7 \<longrightarrow> ?P k))"
  proof -
    have "i \<le> k \<longleftrightarrow> k = i \<or> i + 1 \<le> k" for k by auto
    then have "(\<forall>k. i \<le> k \<and> k < 7 \<longrightarrow> ?P k) \<longleftrightarrow> (\<forall>k. (k = i \<or> i + 1 \<le> k) \<and> k < 7 \<longrightarrow> ?P k)"
      by simp
    also have "\<dots> \<longleftrightarrow> ?P i \<and> (\<forall>k. i + 1 \<le> k \<and> k < 7 \<longrightarrow> ?P k)"
      using i by blast
    finally show ?thesis by blast
  qed
  finally show ?case .
qed

lemma compare_group_ascii:
  assumes "a + 8 \<le> length mem" "p + 7 \<le> length packed" "all_ascii (take 8 (drop a mem))"
  shows "compare_group packed p mem a 0 res
       = (p + 7, a + 7, res \<and> take 7 (drop p packed) = pack8 (drop a mem))"
proof -
  have asc: "\<not> bit (mem ! (a + k)) 7" if "k < 8" for k
    using all_ascii_nth [OF assms(3), of k] that assms(1) by simp
  have "(\<forall>k. 0 \<le> k \<and> k < 7 \<longrightarrow> char_conv (mem ! (a + k)) (mem ! (a + k + 1)) k = packed ! (p + k))
      \<longleftrightarrow> (\<forall>k<7. pack8 (drop a mem) ! k = take 7 (drop p packed) ! k)"
  proof (intro all_cong1 imp_cong)
    fix k :: nat
    show "(0 \<le> k \<and> k < 7) = (k < 7)" by simp
    assume k: "k < 7"
    then have "char_conv (mem ! (a + k)) (mem ! (a + k + 1)) k = conv_byte (mem ! (a + k)) (mem ! (a + k + 1)) k"
      using asc [of k] asc [of "k + 1"] by (intro char_conv_ascii) simp_all
    with k assms show "(char_conv (mem ! (a + k)) (mem ! (a + k + 1)) k = packed ! (p + k))
        = (pack8 (drop a mem) ! k = take 7 (drop p packed) ! k)"
      by (simp add: pack8_def add.assoc)
  qed
  also have "\<dots> \<longleftrightarrow> take 7 (drop p packed) = pack8 (drop a mem)"
    using assms by (auto simp: list_eq_iff_nth_eq)
  finally have eq: "(\<forall>k. 0 \<le> k \<and> k < 7 \<longrightarrow> char_conv (mem ! (a + k)) (mem ! (a + k + 1)) k = packed ! (p + k))
      \<longleftrightarrow> take 7 (drop p packed) = pack8 (drop a mem)" .
  have "compare_group packed (p + 0) mem (a + 0) 0 res
      = (p + 7, a + 7,
         res \<and> (\<forall>k. 0 \<le> k \<and> k < 7 \<longrightarrow> char_conv (mem ! (a + k)) (mem ! (a + k + 1)) k = packed ! (p + k)))"
    by (rule compare_group_gen) simp
  then show ?thesis by (simp only: eq add_0_right)
qed

lemma char_eq_ascii:
  assumes "\<not> bit c 7"
  shows "(scast (c :: byte) :: 32 word) = ucast (d :: byte) \<longleftrightarrow> c = d"
proof -
  have sc: "(scast c :: 32 word) = ucast c"
  proof (rule bit_word_eqI)
    fix n assume "n < LENGTH(32)"
    then have n: "n < 32" by simp
    show "bit (scast c :: 32 word) n = bit (ucast c :: 32 word) n"
    proof (cases "n < 7")
      case True
      with n show ?thesis by (simp add: bit_signed_iff bit_ucast_iff min_def)
    next
      case False
      then have "min 7 n = 7" by simp
      moreover have "\<not> bit c n"
      proof (cases "n = 7")
        case True with assms show ?thesis by simp
      next
        case False
        with \<open>\<not> n < 7\<close> have "8 \<le> n" by simp
        then show ?thesis by (rule byte_bit_ge8)
      qed
      ultimately show ?thesis using n assms by (simp add: bit_signed_iff bit_ucast_iff)
    qed
  qed
  have "(ucast c :: 32 word) = ucast d \<Longrightarrow> c = d"
  proof (rule bit_word_eqI)
    fix n assume eq: "(ucast c :: 32 word) = ucast d" and "n < LENGTH(8)"
    then have n: "n < 8" by simp
    from eq have "bit (ucast c :: 32 word) n = bit (ucast d :: 32 word) n" by simp
    with n show "bit c n = bit d n" by (simp add: bit_ucast_iff)
  qed
  then show ?thesis unfolding sc by auto
qed

lemma take_drop_Suc:
  "p < length xs \<Longrightarrow> take (Suc m) (drop p xs) = xs ! p # take m (drop (p + 1) xs)"
  by (simp add: Cons_nth_drop_Suc [symmetric])

lemma compare_tail_eq:
  "ascii \<le> lim \<Longrightarrow> lim \<le> length mem \<Longrightarrow> p + (lim - ascii) \<le> length packed \<Longrightarrow>
   all_ascii (take (lim - ascii) (drop ascii mem)) \<Longrightarrow>
   compare_tail packed p mem ascii lim
     = (take (lim - ascii) (drop p packed) = take (lim - ascii) (drop ascii mem))"
proof (induction packed p mem ascii lim rule: compare_tail.induct)
  case (1 packed p mem ascii lim)
  show ?case
  proof (cases "ascii < lim")
    case True
    then obtain m where m: "lim - ascii = Suc m" by (cases "lim - ascii") simp_all
    then have m': "lim - (ascii + 1) = m" by simp
    from True "1.prems" have a: "ascii < length mem" and p: "p < length packed" by simp_all
    have td: "take (lim - ascii) (drop ascii mem) = mem ! ascii # take m (drop (ascii + 1) mem)"
      "take (lim - ascii) (drop p packed) = packed ! p # take m (drop (p + 1) packed)"
      unfolding m using a p by (simp_all only: take_drop_Suc)
    from "1.prems"(4) have asc: "\<not> bit (mem ! ascii) 7" and rest: "all_ascii (take m (drop (ascii + 1) mem))"
      unfolding td by (simp_all add: all_ascii_def)
    note ce = char_eq_ascii [OF asc, of "packed ! p"]
    show ?thesis
    proof (cases "mem ! ascii = packed ! p")
      case False
      with ce True have "compare_tail packed p mem ascii lim = False"
        by (simp add: compare_tail.simps [of packed p mem ascii])
      with False show ?thesis unfolding td by simp
    next
      case eq: True
      with ce have ne: "\<not> (scast (mem ! ascii) :: 32 word) \<noteq> ucast (packed ! p)" by simp
      have "compare_tail packed p mem ascii lim = compare_tail packed (p + 1) mem (ascii + 1) lim"
        using True ne by (simp add: compare_tail.simps [of packed p mem ascii])
      also have "\<dots> = (take (lim - (ascii + 1)) (drop (p + 1) packed)
          = take (lim - (ascii + 1)) (drop (ascii + 1) mem))"
        using True "1.prems" rest m' ne by (intro "1.IH") simp_all
      finally show ?thesis unfolding td m' using eq by simp
    qed
  next
    case False
    then have "compare_tail packed p mem ascii lim = True"
      by (simp add: compare_tail.simps [of packed p mem ascii])
    with False "1.prems" show ?thesis by simp
  qed
qed

lemma all_ascii_take: "all_ascii s \<Longrightarrow> all_ascii (take n s)"
  by (auto simp: all_ascii_def dest: in_set_takeD)

lemma compare_packed_eq:
  assumes "ascii + n \<le> length mem" "p + packed_len n \<le> length packed"
    and "all_ascii (take n (drop ascii mem))"
  shows "compare_packed packed p mem ascii n
       = (take (packed_len n) (drop p packed) = pack_spec (take n (drop ascii mem)))"
proof -
  have "ascii \<le> lim \<Longrightarrow> lim \<le> length mem \<Longrightarrow> p + packed_len (lim - ascii) \<le> length packed \<Longrightarrow>
      all_ascii (take (lim - ascii) (drop ascii mem)) \<Longrightarrow>
      (case compare_blocks packed p mem ascii lim res of None \<Rightarrow> False
         | Some (p', ascii') \<Rightarrow> compare_tail packed p' mem ascii' lim)
        = (take (packed_len (lim - ascii)) (drop p packed)
            = pack_spec (take (lim - ascii) (drop ascii mem)))" if "res" for lim res
    using that
  proof (induction packed p mem ascii lim res rule: compare_blocks.induct)
    case (1 packed p mem ascii lim res)
    let ?s = "take (lim - ascii) (drop ascii mem)"
    show ?case
    proof (cases "ascii + 8 \<le> lim")
      case True
      then have n8: "8 \<le> lim - ascii" by simp
      have len: "8 \<le> length ?s" using True "1.prems" by simp
      let ?r = "take (lim - (ascii + 8)) (drop (ascii + 8) mem)"
      have ps: "pack_spec ?s = pack8 (drop ascii mem) @ pack_spec ?r"
        using len n8 by (simp add: pack_spec.simps [of ?s] drop_take add.commute pack8_take)
      have pl: "packed_len (lim - ascii) = 7 + packed_len (lim - (ascii + 8))"
        using packed_len_step [OF n8] by simp
      have a8: "ascii + 8 \<le> length mem" using True "1.prems" by simp
      have p7: "p + 7 \<le> length packed" using "1.prems" pl by simp
      have "take 8 (drop ascii mem) = take 8 ?s" using n8 by simp
      then have asc8: "all_ascii (take 8 (drop ascii mem))"
        using all_ascii_take [OF "1.prems"(4), of 8] by simp
      have r_ascii: "all_ascii ?r"
      proof -
        have "?r = drop 8 ?s" by (simp add: drop_take add.commute)
        with "1.prems"(4) show ?thesis by (simp add: all_ascii_drop)
      qed
      let ?ok = "take 7 (drop p packed) = pack8 (drop ascii mem)"
      have g: "compare_group packed p mem ascii 0 res = (p + 7, ascii + 7, ?ok)"
        using compare_group_ascii [OF a8 p7 asc8, of res] "1.prems"(5) by simp
      have split: "take (packed_len (lim - ascii)) (drop p packed)
          = take 7 (drop p packed) @ take (packed_len (lim - (ascii + 8))) (drop (p + 7) packed)"
        unfolding pl by (simp add: take_add add.commute)
      have l7: "length (take 7 (drop p packed)) = length (pack8 (drop ascii mem))"
        using p7 by simp
      show ?thesis
      proof (cases ?ok)
        case False
        have "compare_blocks packed p mem ascii lim res = None"
          using True False by (simp add: compare_blocks.simps [of packed p mem ascii] g)
        moreover have "take (packed_len (lim - ascii)) (drop p packed) \<noteq> pack_spec ?s"
          unfolding split ps using False l7 by simp
        ultimately show ?thesis by simp
      next
        case ok: True
        have "compare_blocks packed p mem ascii lim res
            = compare_blocks packed (p + 7) mem (ascii + 7 + 1) lim ?ok"
          using True ok by (simp add: compare_blocks.simps [of packed p mem ascii] g)
        then have "(case compare_blocks packed p mem ascii lim res of None \<Rightarrow> False
              | Some (p', ascii') \<Rightarrow> compare_tail packed p' mem ascii' lim)
            = (case compare_blocks packed (p + 7) mem (ascii + 7 + 1) lim ?ok of None \<Rightarrow> False
              | Some (p', ascii') \<Rightarrow> compare_tail packed p' mem ascii' lim)"
          by simp
        also have "\<dots> = (take (packed_len (lim - (ascii + 7 + 1))) (drop (p + 7) packed)
            = pack_spec (take (lim - (ascii + 7 + 1)) (drop (ascii + 7 + 1) mem)))"
        proof (rule "1.IH" [OF True g [symmetric] refl refl])
          show "\<not> \<not> ?ok" using ok by simp
          show "ascii + 7 + 1 \<le> lim" using True by simp
          show "lim \<le> length mem" by fact
          have "lim - (ascii + 7 + 1) = lim - (ascii + 8)" by simp
          then show "p + 7 + packed_len (lim - (ascii + 7 + 1)) \<le> length packed"
            using "1.prems"(3) unfolding pl by (simp only: add.assoc)
          have e: "ascii + 7 + 1 = ascii + 8" by simp
          show "all_ascii (take (lim - (ascii + 7 + 1)) (drop (ascii + 7 + 1) mem))"
            unfolding e by (rule r_ascii)
          show ?ok by fact
        qed
        also have "\<dots> = (take (packed_len (lim - (ascii + 8))) (drop (p + 7) packed) = pack_spec ?r)"
        proof -
          have e: "ascii + 7 + 1 = ascii + 8" by simp
          show ?thesis unfolding e ..
        qed
        also have "\<dots> = (take (packed_len (lim - ascii)) (drop p packed) = pack_spec ?s)"
          unfolding split ps using ok by simp
        finally show ?thesis .
      qed
    next
      case False
      then have n: "lim - ascii < 8" by simp
      then have short: "\<not> 8 \<le> length ?s" by simp
      then have ps: "pack_spec ?s = ?s"
        by (subst pack_spec.simps) (simp only: if_False)
      have "compare_blocks packed p mem ascii lim res = Some (p, ascii)"
        using False by (simp add: compare_blocks.simps [of packed p mem ascii])
      then have "(case compare_blocks packed p mem ascii lim res of None \<Rightarrow> False
            | Some (p', ascii') \<Rightarrow> compare_tail packed p' mem ascii' lim)
          = compare_tail packed p mem ascii lim"
        by simp
      also have "\<dots> = (take (lim - ascii) (drop p packed) = take (lim - ascii) (drop ascii mem))"
        using "1.prems" packed_len_small [OF n] by (intro compare_tail_eq) simp_all
      finally show ?thesis
        unfolding ps packed_len_small [OF n] .
    qed
  qed
  from this [of True "ascii + n"] assms show ?thesis
    by (simp add: compare_packed_def Let_def)
qed

lemma compare_packed_iff:
  assumes "all_ascii s" "all_ascii t" "length t = length s"
    and "packed_len (length s) \<le> length bin"
  shows "compare_packed (ascii_pack s 0 (length s) bin 0) 0 t 0 (length s) \<longleftrightarrow> t = s"
proof -
  let ?p = "pack_spec s"
  have lp: "length ?p = packed_len (length s)" by (rule pack_spec_length)
  have packed: "ascii_pack s 0 (length s) bin 0 = ?p @ drop (packed_len (length s)) bin"
    using assms(1,4) by (rule ascii_pack_buffer)
  have "compare_packed (?p @ drop (packed_len (length s)) bin) 0 t 0 (length s)
      = (take (packed_len (length s)) (drop 0 (?p @ drop (packed_len (length s)) bin))
          = pack_spec (take (length s) (drop 0 t)))"
    using assms lp by (intro compare_packed_eq) simp_all
  also have "\<dots> \<longleftrightarrow> pack_spec s = pack_spec t"
    using assms lp by simp
  also have "\<dots> \<longleftrightarrow> t = s"
    using pack_spec_inj [of s t] assms by auto
  finally show ?thesis by (simp only: packed)
qed

text \<open>
  Claim C3. For every string \<open>s\<close> of 7-bit bytes, \<open>compare_packed\<close> of the packed form of
  \<open>s\<close> with \<open>s\<close> itself is true, and it is false with any \<open>s[i := c]\<close> that changes
  exactly one byte to another 7-bit byte.
\<close>

theorem compare_packed_correct:
  assumes "all_ascii s" and "packed_len (length s) \<le> length bin"
  shows "compare_packed (ascii_pack s 0 (length s) bin 0) 0 s 0 (length s) \<and>
         (\<forall>i<length s. \<forall>c. \<not> bit c 7 \<and> c \<noteq> s ! i \<longrightarrow>
            \<not> compare_packed (ascii_pack s 0 (length s) bin 0) 0 (s[i := c]) 0 (length s))"
proof (intro conjI allI impI)
  show "compare_packed (ascii_pack s 0 (length s) bin 0) 0 s 0 (length s)"
    using assms by (simp add: compare_packed_iff)
next
  fix i c assume i: "i < length s" and c: "\<not> bit c 7 \<and> c \<noteq> s ! i"
  have "all_ascii (s[i := c])"
    using assms(1) c by (auto simp: all_ascii_def dest: set_update_subset_insert [THEN subsetD])
  moreover have "s[i := c] \<noteq> s"
    using i c by (metis nth_list_update_eq)
  ultimately show "\<not> compare_packed (ascii_pack s 0 (length s) bin 0) 0 (s[i := c]) 0 (length s)"
    using assms by (simp add: compare_packed_iff)
qed

theorem compare_packed_correct_witness:
  "compare_packed (ascii_pack [0x61, 0x62, 0x63, 0x64, 0x65, 0x66, 0x67, 0x68, 0x69] 0 9 (replicate 8 0) 0) 0
     [0x61, 0x62, 0x63, 0x64, 0x65, 0x66, 0x67, 0x68, 0x69] 0 9 \<and>
   \<not> compare_packed (ascii_pack [0x61, 0x62, 0x63, 0x64, 0x65, 0x66, 0x67, 0x68, 0x69] 0 9 (replicate 8 0) 0) 0
     [0x61, 0x62, 0x63, 0x78, 0x65, 0x66, 0x67, 0x68, 0x69] 0 9"
proof -
  let ?s = "[0x61, 0x62, 0x63, 0x64, 0x65, 0x66, 0x67, 0x68, 0x69] :: byte list"
  have len: "length ?s = 9" by simp
  have a: "all_ascii ?s" by (simp add: all_ascii_def)
  have l: "packed_len (length ?s) \<le> length (replicate 8 (0 :: byte))" by (simp add: packed_len_def)
  note t = compare_packed_correct [OF a l, unfolded len]
  from t have 1: "compare_packed (ascii_pack ?s 0 9 (replicate 8 0) 0) 0 ?s 0 9"
    by (rule conjunct1)
  from t have "3 < (9::nat) \<longrightarrow> (\<not> bit (0x78 :: byte) 7 \<and> 0x78 \<noteq> ?s ! 3 \<longrightarrow>
      \<not> compare_packed (ascii_pack ?s 0 9 (replicate 8 0) 0) 0 (?s[3 := 0x78]) 0 9)"
    by blast
  then have 2: "\<not> compare_packed (ascii_pack ?s 0 9 (replicate 8 0) 0) 0 (?s[3 := 0x78]) 0 9"
    by simp
  have upd: "?s[3 := 0x78] = [0x61, 0x62, 0x63, 0x78, 0x65, 0x66, 0x67, 0x68, 0x69]"
    by (simp add: numeral_3_eq_3)
  from 1 2 [unfolded upd] show ?thesis by (rule conjI)
qed

subsection \<open>The vector packer\<close>

text \<open>Below 32 bytes the vector loop does not run and the scalar packer does all the work.\<close>

lemma ascii_pack_simd_short:
  assumes "0 < len" "len < 32"
  shows "ascii_pack_simd mem ascii len bin b = Inr (ascii_pack mem ascii len bin b)"
proof -
  have "\<not> int ascii \<le> int ascii + int len - 32" using assms by simp
  then have "ascii_pack_simd_blocks mem ascii (int ascii + int len - 32) (mm_set1_epi64x 0x7F) bin b
      = (ascii, b, bin)"
    by (simp add: ascii_pack_simd_blocks.simps [of mem ascii])
  with assms show ?thesis
    by (simp add: ascii_pack_simd_def Let_def)
qed

text \<open>
  Claim C1, at the input of 32 bytes \<open>0x61\<close>, the shortest on which the vector loop runs.
  The scalar packer writes \<open>e1 70 38 1c 0e 87 c3\<close> for each group of eight bytes. The
  vector packer writes \<open>61 00 00 00 00 00 00\<close> for each of the two groups that its loop
  handles, since the loop keeps only \<open>val & mask\<close>, and leaves the last two groups to the
  scalar packer.
\<close>

theorem ascii_pack_simd_differs:
  "ascii_pack_simd (replicate 32 0x61) 0 32 (replicate 28 0) 0
     = Inr [0x61, 0, 0, 0, 0, 0, 0, 0x61, 0, 0, 0, 0, 0, 0,
            0xE1, 0x70, 0x38, 0x1C, 0x0E, 0x87, 0xC3, 0xE1, 0x70, 0x38, 0x1C, 0x0E, 0x87, 0xC3] \<and>
   ascii_pack (replicate 32 0x61) 0 32 (replicate 28 0) 0
     = [0xE1, 0x70, 0x38, 0x1C, 0x0E, 0x87, 0xC3, 0xE1, 0x70, 0x38, 0x1C, 0x0E, 0x87, 0xC3,
        0xE1, 0x70, 0x38, 0x1C, 0x0E, 0x87, 0xC3, 0xE1, 0x70, 0x38, 0x1C, 0x0E, 0x87, 0xC3] \<and>
   ascii_pack_simd (replicate 32 0x61) 0 32 (replicate 28 0) 0
     \<noteq> Inr (ascii_pack (replicate 32 0x61) 0 32 (replicate 28 0) 0)"
  by code_simp

section \<open>CompactObj: hashing and equality\<close>

lemma all_ascii_validate: "validate_ascii_fast s (length s) \<longleftrightarrow> all_ascii s"
  by (simp add: validate_ascii_fast_iff all_ascii_def all_set_conv_all_nth)

lemma GetString_SetString: "GetString (SetString cc obj str) = Inr str"
proof -
  let ?bin = "replicate (packed_len (length str)) (0 :: byte)"
  have "ascii_unpack (ascii_pack str 0 (length str) ?bin 0) 0 (length str) (replicate (length str) 0) 0
      = Inr str" if a: "all_ascii str"
  proof -
    have "ascii_pack str 0 (length str) ?bin 0 = pack_spec str @ drop (packed_len (length str)) ?bin"
      using a by (intro ascii_pack_buffer) simp_all
    moreover have "ascii_unpack (pack_spec str @ drop (packed_len (length str)) ?bin) 0 (length str)
        (replicate (length str) 0) 0 = Inr (str @ drop (length str) (replicate (length str) 0))"
      using a by (intro ascii_unpack_buffer) simp_all
    ultimately show ?thesis by simp
  qed
  then show ?thesis
    by (auto simp: GetString_def SetString_def is_small_int_def Let_def all_ascii_validate)
qed

lemma EqualStr_SetString: "EqualStr (SetString cc obj str) str"
proof -
  let ?bin = "replicate (packed_len (length str)) (0 :: byte)"
  have "compare_packed (ascii_pack str 0 (length str) ?bin 0) 0 str 0 (length str)"
    if "all_ascii str"
    using that by (simp add: compare_packed_iff)
  then show ?thesis
    by (auto simp: EqualStr_def SetString_def is_small_int_def Let_def all_ascii_validate)
qed

text \<open>
  Claim C5, on the model of \<open>CompactObj\<close> above. After \<open>SetString\<close> of a string, whatever
  representation the constants make it choose, \<open>HashCode\<close> is the hash function of the
  object's string with the seed \<open>kSeed\<close>; two objects set to the same string under
  different constants, hence in different representations, have the same hash and
  compare equal; and this holds for the 17 bytes of \<open>key:0000000000000\<close>.
\<close>

theorem HashCode_logical_bytes:
  "HashCode xxh (SetString cc obj str) = Inr (xxh str kSeed) \<and>
   HashCode xxh (SetString cc obj str) = HashCode xxh (SetString cc' obj' str) \<and>
   Equal (SetString cc obj str) (SetString cc' obj' str) \<and>
   HashCode xxh (SetString cc obj ([0x6B, 0x65, 0x79, 0x3A] @ replicate 13 0x30))
     = Inr (xxh ([0x6B, 0x65, 0x79, 0x3A] @ replicate 13 0x30) kSeed)"
proof -
  have h: "HashCode xxh (SetString c ob s) = Inr (xxh s kSeed)" for c ob s
    by (simp add: HashCode_def GetString_SetString HashCode_sv_def)
  have "Equal (SetString cc obj str) (SetString cc' obj' str)"
    by (simp add: Equal_def GetString_SetString EqualStr_SetString)
  with h show ?thesis by simp
qed

section \<open>StringMap: layout, hashing and deletion\<close>

lemma Load64_le_bytes: "Load64 (le_bytes 8 v) 0 = v"
proof (rule bit_word_eqI)
  fix n assume "n < LENGTH(64)"
  then have n: "n < 64" by simp
  then have d: "n div 8 < 8" by simp
  have "bit (horner_sum uint (2 ^ LENGTH(8)) (le_bytes 8 v)) n
      = (n div 8 < length (le_bytes 8 v) \<and> bit (le_bytes 8 v ! (n div 8)) (n mod 8))"
    by (simp only: bit_horner_sum_uint_exp_iff) simp
  also have "\<dots> = bit (ucast (drop_bit (8 * (n div 8)) v) :: byte) (n mod 8)"
    using d by (simp add: le_bytes_def del: upt_rec_numeral)
  also have "\<dots> = bit v (8 * (n div 8) + n mod 8)"
    by (simp add: bit_ucast_iff bit_drop_bit_eq)
  also have "8 * (n div 8) + n mod 8 = n" by simp
  finally show "bit (Load64 (le_bytes 8 v) 0) n = bit v n"
    using n by (simp add: Load64_def bit_word_of_int_iff le_bytes_def del: upt_rec_numeral)
qed

lemma le_bytes_length [simp]: "length (le_bytes n v) = n"
  by (simp add: le_bytes_def)

lemma GetValue_key_alloc:
  "heap m k = Some (key_alloc field v) \<Longrightarrow> GetValue m k = Inr v"
  by (simp add: GetValue_def sdslen_def read_bytes_def key_alloc_def Load64_le_bytes)

lemma store_field: "store_bytes (replicate (length field) f @ [0] @ replicate 8 f) 0 field
    = field @ [0] @ replicate 8 f"
  by (simp add: store_bytes_def)

lemma store_ptr: "store_bytes (field @ [0] @ replicate 8 f) (length field + 1) (le_bytes 8 v)
    = field @ [0] @ le_bytes 8 v"
  by (simp add: store_bytes_def)

lemma AddOrSet_exec:
  assumes "avail m = (k, fk) # (v, fv) # rest" "k \<noteq> v" "length field < 2 ^ 32"
  shows "AddOrSet m field val 0xFFFFFFFF =
     (let (added, m5) = AddInternal (prepared m field val k v) k False
      in if \<not> added
         then (case ObjDelete m5 k False of Inl e \<Rightarrow> Inl (e, m5) | Inr m6 \<Rightarrow> Inl (Fatal, m6))
         else Inr (True, m5))"
proof -
  let ?m1 = "m\<lparr>avail := (v, fv) # rest,
      heap := (heap m)(k \<mapsto> \<lparr>sds_len = length field, sds_buf = replicate (length field) fk @ [0] @ replicate 8 fk\<rparr>)\<rparr>"
  let ?m2 = "m\<lparr>avail := (v, fv) # rest,
      heap := (heap m)(k \<mapsto> \<lparr>sds_len = length field, sds_buf = field @ [0] @ replicate 8 fk\<rparr>)\<rparr>"
  have a1: "AllocSdsWithSpace m (length field mod 2 ^ 32) 8 = Inr (k, ?m1)"
    using assms by (simp add: AllocSdsWithSpace_def zmalloc_def)
  have w1: "(if field \<noteq> [] then write_bytes ?m1 k 0 field else Inr ?m1) = Inr ?m2"
    using store_field [of field fk] by (cases "field = []") (simp_all add: write_bytes_def)
  let ?m3 = "m\<lparr>avail := rest,
      heap := (heap m)(k \<mapsto> \<lparr>sds_len = length field, sds_buf = field @ [0] @ replicate 8 fk\<rparr>,
                      v \<mapsto> val_alloc val)\<rparr>"
  have a2: "sdsnewlen ?m2 val = Inr (v, ?m3)"
    by (simp add: sdsnewlen_def zmalloc_def val_alloc_def)
  have w2: "write_bytes ?m3 k (length field + 1) (le_bytes 8 v) = Inr (prepared m field val k v)"
    using assms(1,2) store_ptr [of field fk v]
    by (simp add: write_bytes_def prepared_def key_alloc_def fun_upd_twist)
  show ?thesis
    unfolding AddOrSet_def by (simp only: a1 w1 a2 w2 sum.case prod.case if_False Let_def simp_thms)
qed

lemma AddOrSet_ttl: "ttl_sec \<noteq> 0xFFFFFFFF \<Longrightarrow> AddOrSet m field val ttl_sec = Inl (Fatal, m)"
  by (simp add: AddOrSet_def)

lemma AddOrSet_no_memory:
  assumes "length (avail m) < 2"
  shows "\<exists>e m'. AddOrSet m field val ttl_sec = Inl (e, m')"
proof (cases "ttl_sec = 0xFFFFFFFF")
  case False
  then show ?thesis by (simp add: AddOrSet_ttl)
next
  case True
  show ?thesis
  proof (cases "avail m")
    case Nil
    with True show ?thesis
      by (simp add: AddOrSet_def AllocSdsWithSpace_def zmalloc_def)
  next
    case (Cons p rest)
    with assms have rest: "rest = []" by simp
    obtain k fk where p: "p = (k, fk)" by (cases p)
    show ?thesis
      using True Cons rest p
      by (simp add: AddOrSet_def AllocSdsWithSpace_def zmalloc_def sdsnewlen_def write_bytes_def
          split: sum.splits)
  qed
qed

lemma AddOrSet_too_long:
  assumes "2 ^ 32 \<le> length field"
  shows "\<exists>e m'. AddOrSet m field val ttl_sec = Inl (e, m')"
proof (cases "ttl_sec = 0xFFFFFFFF")
  case False
  then show ?thesis by (simp add: AddOrSet_ttl)
next
  case True
  have ne: "field \<noteq> []" using assms by auto
  have "length field mod 2 ^ 32 \<le> length field - 2 ^ 32"
    using assms by (metis mod_le_divisor mod_less_eq_dividend le_mod_geq zero_less_numeral zero_less_power)
  with assms have short: "\<not> length field \<le> length field mod 2 ^ 32 + 9"
    by simp
  show ?thesis
  proof (cases "avail m")
    case Nil
    with True show ?thesis
      by (simp add: AddOrSet_def AllocSdsWithSpace_def zmalloc_def)
  next
    case (Cons p rest)
    obtain k fk where p: "p = (k, fk)" by (cases p)
    have "AllocSdsWithSpace m (length field mod 2 ^ 32) 8 = Inr (k, m\<lparr>avail := rest,
        heap := (heap m)(k \<mapsto> \<lparr>sds_len = length field mod 2 ^ 32,
          sds_buf = replicate (length field mod 2 ^ 32) fk @ [0] @ replicate 8 fk\<rparr>)\<rparr>)"
      using Cons p by (simp add: AllocSdsWithSpace_def zmalloc_def)
    moreover have "write_bytes (m\<lparr>avail := rest,
        heap := (heap m)(k \<mapsto> \<lparr>sds_len = length field mod 2 ^ 32,
          sds_buf = replicate (length field mod 2 ^ 32) fk @ [0] @ replicate 8 fk\<rparr>)\<rparr>) k 0 field
        = Inl BadAccess"
      using short by (simp add: write_bytes_def)
    ultimately show ?thesis
      using True ne by (simp add: AddOrSet_def)
  qed
qed

lemma AddOrSet_success:
  assumes "AddOrSet m field val ttl_sec = Inr (r, m')"
  shows "ttl_sec = 0xFFFFFFFF" and "length field < 2 ^ 32"
    and "\<exists>k fk v fv rest. avail m = (k, fk) # (v, fv) # rest"
proof -
  show "ttl_sec = 0xFFFFFFFF"
    using assms AddOrSet_ttl [of ttl_sec m field val] by auto
  show "length field < 2 ^ 32"
    using assms AddOrSet_too_long [of field m val ttl_sec] by (cases "length field < 2 ^ 32") auto
  have "\<not> length (avail m) < 2"
    using assms AddOrSet_no_memory [of m field val ttl_sec] by auto
  then show "\<exists>k fk v fv rest. avail m = (k, fk) # (v, fv) # rest"
    by (cases "avail m"; cases "tl (avail m)") auto
qed

lemma entry_ok_frame:
  assumes "entry_ok m e" and "\<And>a. heap m a \<noteq> None \<Longrightarrow> heap m' a = heap m a"
  shows "entry_ok m' e"
proof -
  from assms(1) obtain x where x: "heap m e = Some x"
    by (auto simp: entry_ok_def split: option.splits)
  with assms(2) have e: "heap m' e = Some x" by simp
  from assms(1) x obtain v where v: "GetValue m e = Inr v" "v \<noteq> e" "v \<noteq> 0" "heap m v \<noteq> None"
    and l: "length (sds_buf x) = sds_len x + 9" "sds_buf x ! sds_len x = 0"
    by (auto simp: entry_ok_def split: sum.splits)
  have "GetValue m' e = GetValue m e"
    using x e by (simp add: GetValue_def sdslen_def read_bytes_def)
  with v assms(2) [of v] e l show ?thesis
    by (simp add: entry_ok_def)
qed

lemma entry_ok_new:
  assumes "heap m k = Some (key_alloc field v)" "v \<noteq> k" "v \<noteq> 0" "heap m v \<noteq> None"
  shows "entry_ok m k"
  using assms GetValue_key_alloc [OF assms(1)]
  by (simp add: entry_ok_def key_alloc_def nth_append)

lemma alloc_ok_two:
  assumes "alloc_ok m" "avail m = (k, fk) # (v, fv) # rest"
  shows "k \<noteq> v" "k \<noteq> 0" "v \<noteq> 0" "heap m k = None" "heap m v = None"
  using assms by (auto simp: alloc_ok_def)

lemma prepared_heap:
  "k \<noteq> v \<Longrightarrow> heap (prepared m field val k v) k = Some (key_alloc field v)"
  "heap (prepared m field val k v) v = Some (val_alloc val)"
  "a \<noteq> k \<Longrightarrow> a \<noteq> v \<Longrightarrow> heap (prepared m field val k v) a = heap m a"
  "entries (prepared m field val k v) = entries m"
  by (simp_all add: prepared_def)

text \<open>
  Claim C6. When \<open>AddOrSet\<close> returns, the table has one more key \<open>k\<close>. Its allocation is
  new and holds the bytes of the field, a NUL, and the eight little-endian bytes of the
  address \<open>v\<close> of another new allocation, which holds the bytes of the value;
  \<open>GetValue\<close> of \<open>k\<close> is \<open>v\<close>; and if every stored key had this layout before, every
  stored key has it after.
\<close>

theorem AddOrSet_entry_layout:
  assumes "alloc_ok m" and "list_all (entry_ok m) (entries m)"
    and "AddOrSet m field val ttl_sec = Inr (r, m')"
  shows "\<exists>k v. entries m' = k # entries m \<and> heap m k = None \<and> heap m v = None \<and> v \<noteq> k \<and>
           heap m' k = Some \<lparr>sds_len = length field, sds_buf = field @ [0] @ le_bytes 8 v\<rparr> \<and>
           heap m' v = Some \<lparr>sds_len = length val, sds_buf = val @ [0]\<rparr> \<and>
           GetValue m' k = Inr v \<and>
           list_all (entry_ok m') (entries m')"
proof -
  note s = AddOrSet_success [OF assms(3)]
  from s(3) obtain k fk v fv rest where av: "avail m = (k, fk) # (v, fv) # rest" by blast
  note ok = alloc_ok_two [OF assms(1) av]
  let ?p = "prepared m field val k v"
  obtain added m5 where ai: "AddInternal ?p k False = (added, m5)"
    by (cases "AddInternal ?p k False")
  from assms(3) have "added" and m': "m' = m5"
    unfolding s(1) AddOrSet_exec [OF av ok(1) s(2)] ai
    by (auto split: if_splits sum.splits)
  with ai have m5: "m' = ?p\<lparr>entries := k # entries m\<rparr>"
    by (auto simp: AddInternal_def prepared_heap split: if_splits)
  have hk: "heap m' k = Some (key_alloc field v)" and hv: "heap m' v = Some (val_alloc val)"
    and fr: "\<And>a. heap m a \<noteq> None \<Longrightarrow> heap m' a = heap m a"
    using ok by (auto simp: m5 prepared_def)
  have new: "entry_ok m' k"
    using hk ok hv by (intro entry_ok_new [of m' k field v]) auto
  have old: "list_all (entry_ok m') (entries m)"
    using assms(2) entry_ok_frame [OF _ fr] by (auto simp: list_all_iff)
  have "entries m' = k # entries m" by (simp add: m5)
  with new old hk hv ok GetValue_key_alloc [OF hk] show ?thesis
    by (auto simp: key_alloc_def val_alloc_def)
qed

lemma ObjDelete_frees:
  assumes "GetValue m obj = Inr v" "v \<noteq> 0" "obj \<noteq> 0" "v \<noteq> obj" "heap m v \<noteq> None" "heap m obj \<noteq> None"
  shows "ObjDelete m obj has_ttl = Inr (m\<lparr>heap := (heap m)(v := None, obj := None)\<rparr>)"
  using assms by (auto simp: ObjDelete_def sdsfree_def)

text \<open>
  Claim C10. \<open>ObjDelete\<close> returns the same with \<open>has_ttl\<close> true and false, and on a key
  whose last eight bytes are the address of a live value buffer it frees that buffer and
  the key, and nothing else.
\<close>

theorem ObjDelete_ignores_has_ttl:
  "ObjDelete m obj True = ObjDelete m obj False \<and>
   (GetValue m obj = Inr v \<and> v \<noteq> 0 \<and> obj \<noteq> 0 \<and> v \<noteq> obj \<and> heap m v \<noteq> None \<and> heap m obj \<noteq> None \<longrightarrow>
      ObjDelete m obj has_ttl = Inr (m\<lparr>heap := (heap m)(v := None, obj := None)\<rparr>))"
  using ObjDelete_frees [of m obj v has_ttl] by (simp add: ObjDelete_def)

text \<open>
  Claim C9. For every field and every state of the map, whether the field is stored or
  not, \<open>Erase\<close> returns false and leaves the state as it was.
\<close>

theorem Erase_not_found: "fst (Erase m field) = False \<and> snd (Erase m field) = m"
  by (simp add: Erase_def)

text \<open>
  Claim C7. For two keys with the same field bytes and any two value pointers, \<open>Hash\<close> with
  cookie 0 returns for both the content hash of the field and \<open>ObjEqual\<close> with cookie 0
  returns true; with any other cookie both functions abort.
\<close>

theorem Hash_ObjEqual_field_only:
  assumes "heap m k1 = Some \<lparr>sds_len = length field, sds_buf = field @ [0] @ le_bytes 8 v1\<rparr>"
    and "heap m k2 = Some \<lparr>sds_len = length field, sds_buf = field @ [0] @ le_bytes 8 v2\<rparr>"
  shows "Hash xxh m k1 0 = Inr (HashCode_sv xxh field) \<and>
         Hash xxh m k2 0 = Inr (HashCode_sv xxh field) \<and>
         ObjEqual m k1 k2 0 = Inr True \<and>
         (cookie \<noteq> 0 \<longrightarrow> Hash xxh m k1 cookie = Inl Fatal \<and> ObjEqual m k1 k2 cookie = Inl Fatal)"
  using assms by (simp add: Hash_def ObjEqual_def sdslen_def read_bytes_def)

lemma ObjEqual_same_field:
  assumes "heap m e = Some x" "sds_len x = length field" "take (length field) (sds_buf x) = field"
    and "heap m k = Some (key_alloc field v)"
  shows "ObjEqual m e k 0 = Inr True"
proof -
  from assms(3) have "length field \<le> length (sds_buf x)"
    by (metis length_take min.cobounded1 min.commute)
  with assms show ?thesis
    by (simp add: ObjEqual_def sdslen_def read_bytes_def key_alloc_def)
qed

text \<open>
  Claim C8. \<open>AddOrSet\<close> returns only when \<open>ttl_sec\<close> is \<open>UINT32_MAX\<close> and aborts on any other
  value, leaving the state untouched. When the allocator has two blocks, the field is
  shorter than \<open>2^32\<close> bytes and a stored key has the same field, it aborts with the heap
  and the table as they were before the call: the new key and the new value buffer have
  been freed.
\<close>

theorem AddOrSet_fatal:
  "(AddOrSet m field val ttl_sec = Inr (r, m1) \<longrightarrow> ttl_sec = 0xFFFFFFFF) \<and>
   (ttl_sec \<noteq> 0xFFFFFFFF \<longrightarrow> AddOrSet m field val ttl_sec = Inl (Fatal, m)) \<and>
   (alloc_ok m \<and> 2 \<le> length (avail m) \<and> length field < 2 ^ 32 \<and>
    (\<exists>e\<in>set (entries m). \<exists>x. heap m e = Some x \<and> sds_len x = length field \<and>
        take (length field) (sds_buf x) = field) \<longrightarrow>
      (\<exists>m'. AddOrSet m field val 0xFFFFFFFF = Inl (Fatal, m') \<and> heap m' = heap m \<and>
         entries m' = entries m))"
proof (intro conjI impI)
  assume "AddOrSet m field val ttl_sec = Inr (r, m1)"
  then show "ttl_sec = 0xFFFFFFFF" by (rule AddOrSet_success(1))
next
  assume "ttl_sec \<noteq> 0xFFFFFFFF"
  then show "AddOrSet m field val ttl_sec = Inl (Fatal, m)" by (rule AddOrSet_ttl)
next
  assume a: "alloc_ok m \<and> 2 \<le> length (avail m) \<and> length field < 2 ^ 32 \<and>
    (\<exists>e\<in>set (entries m). \<exists>x. heap m e = Some x \<and> sds_len x = length field \<and>
        take (length field) (sds_buf x) = field)"
  then obtain e x where e: "e \<in> set (entries m)" "heap m e = Some x" "sds_len x = length field"
    "take (length field) (sds_buf x) = field"
    by blast
  from a obtain k fk v fv rest where av: "avail m = (k, fk) # (v, fv) # rest"
    by (cases "avail m"; cases "tl (avail m)") auto
  from a have ok: "k \<noteq> v" "k \<noteq> 0" "v \<noteq> 0" "heap m k = None" "heap m v = None"
    using alloc_ok_two [OF _ av] by blast+
  let ?p = "prepared m field val k v"
  have "e \<noteq> k" "e \<noteq> v" using e ok by auto
  then have "heap ?p e = Some x" using e by (simp add: prepared_heap)
  from ObjEqual_same_field [OF this e(3,4) prepared_heap(1) [OF ok(1)]] e(1)
  have "list_ex (\<lambda>e. ObjEqual ?p e k 0 = Inr True) (entries ?p)"
    by (auto simp: list_ex_iff prepared_heap)
  then have ai: "AddInternal ?p k False = (False, ?p)"
    by (simp add: AddInternal_def)
  have gv: "GetValue ?p k = Inr v"
    using prepared_heap(1) [OF ok(1)] by (rule GetValue_key_alloc)
  have del: "ObjDelete ?p k False = Inr (?p\<lparr>heap := (heap ?p)(v := None, k := None)\<rparr>)"
    using gv ok by (intro ObjDelete_frees) (auto simp: prepared_heap)
  have "AddOrSet m field val 0xFFFFFFFF = Inl (Fatal, ?p\<lparr>heap := (heap ?p)(v := None, k := None)\<rparr>)"
    using a by (simp add: AddOrSet_exec [OF av ok(1)] ai del)
  moreover have "(heap ?p)(v := None, k := None) = heap m"
    using ok by (auto simp: prepared_def fun_eq_iff)
  ultimately show "\<exists>m'. AddOrSet m field val 0xFFFFFFFF = Inl (Fatal, m') \<and> heap m' = heap m \<and>
         entries m' = entries m"
    by (simp add: prepared_heap)
qed

section \<open>The theorems on the example states\<close>

lemma example_alloc_ok: "alloc_ok example_map" "alloc_ok example_map1"
  by (simp_all add: alloc_ok_def example_map_def example_map1_def)

lemma example_entries_ok: "list_all (entry_ok example_map) (entries example_map)"
  by (simp add: example_map_def)

lemma example_AddOrSet:
  "AddOrSet example_map [0x61, 0x62] [0x78] 0xFFFFFFFF = Inr (True, example_map1)"
proof -
  have av: "avail example_map = (0x1000, 0xAA) # (0x2000, 0xBB) # [(0x3000, 0xCC), (0x4000, 0xDD)]"
    by (simp add: example_map_def)
  have p: "prepared example_map [0x61, 0x62] [0x78] 0x1000 0x2000
      = example_map1\<lparr>entries := []\<rparr>"
    by (simp add: prepared_def example_map_def example_map1_def)
  have "AddInternal (example_map1\<lparr>entries := []\<rparr>) 0x1000 False = (True, example_map1)"
    by (simp add: AddInternal_def example_map1_def)
  then show ?thesis
    by (simp add: AddOrSet_exec [OF av] p)
qed

theorem AddOrSet_entry_layout_witness:
  "alloc_ok example_map \<and> list_all (entry_ok example_map) (entries example_map) \<and>
   AddOrSet example_map [0x61, 0x62] [0x78] 0xFFFFFFFF = Inr (True, example_map1) \<and>
   (\<exists>k v. entries example_map1 = k # entries example_map \<and>
      heap example_map k = None \<and> heap example_map v = None \<and> v \<noteq> k \<and>
      heap example_map1 k = Some \<lparr>sds_len = length [0x61 :: byte, 0x62], sds_buf = [0x61, 0x62] @ [0] @ le_bytes 8 v\<rparr> \<and>
      heap example_map1 v = Some \<lparr>sds_len = length [0x78 :: byte], sds_buf = [0x78] @ [0]\<rparr> \<and>
      GetValue example_map1 k = Inr v \<and>
      list_all (entry_ok example_map1) (entries example_map1))"
  using AddOrSet_entry_layout [OF example_alloc_ok(1) example_entries_ok example_AddOrSet]
    example_alloc_ok(1) example_entries_ok example_AddOrSet
  by blast


lemma example_GetValue: "GetValue example_map1 0x1000 = Inr 0x2000"
  by (rule GetValue_key_alloc [of _ _ "[0x61, 0x62]"]) (simp add: example_map1_def)

theorem ObjDelete_ignores_has_ttl_witness:
  "ObjDelete example_map1 0x1000 True = ObjDelete example_map1 0x1000 False \<and>
   ObjDelete example_map1 0x1000 True
     = Inr (example_map1\<lparr>heap := (heap example_map1)(0x2000 := None, 0x1000 := None)\<rparr>)"
proof -
  have h: "(0x2000 :: addr) \<noteq> 0" "(0x1000 :: addr) \<noteq> 0" "(0x2000 :: addr) \<noteq> 0x1000"
    "heap example_map1 0x2000 \<noteq> None" "heap example_map1 0x1000 \<noteq> None"
    by (simp_all add: example_map1_def)
  note t = ObjDelete_ignores_has_ttl [of example_map1 "0x1000" "0x2000" True]
  from t have a: "ObjDelete example_map1 0x1000 True = ObjDelete example_map1 0x1000 False"
    by (rule conjunct1)
  from t example_GetValue h
  have b: "ObjDelete example_map1 0x1000 True
      = Inr (example_map1\<lparr>heap := (heap example_map1)(0x2000 := None, 0x1000 := None)\<rparr>)"
    by blast
  from a b show ?thesis by (rule conjI)
qed

theorem Hash_ObjEqual_field_only_witness:
  "Hash (\<lambda>bs seed. seed + of_nat (length bs))
      (example_map1\<lparr>heap := (heap example_map1)(0x3000 \<mapsto> key_alloc [0x61, 0x62] 0x4000)\<rparr>) 0x1000 0
     = Inr (HashCode_sv (\<lambda>bs seed. seed + of_nat (length bs)) [0x61, 0x62]) \<and>
   Hash (\<lambda>bs seed. seed + of_nat (length bs))
      (example_map1\<lparr>heap := (heap example_map1)(0x3000 \<mapsto> key_alloc [0x61, 0x62] 0x4000)\<rparr>) 0x3000 0
     = Inr (HashCode_sv (\<lambda>bs seed. seed + of_nat (length bs)) [0x61, 0x62]) \<and>
   ObjEqual (example_map1\<lparr>heap := (heap example_map1)(0x3000 \<mapsto> key_alloc [0x61, 0x62] 0x4000)\<rparr>)
      0x1000 0x3000 0 = Inr True \<and>
   Hash (\<lambda>bs seed. seed + of_nat (length bs))
      (example_map1\<lparr>heap := (heap example_map1)(0x3000 \<mapsto> key_alloc [0x61, 0x62] 0x4000)\<rparr>) 0x1000 1
     = Inl Fatal \<and>
   ObjEqual (example_map1\<lparr>heap := (heap example_map1)(0x3000 \<mapsto> key_alloc [0x61, 0x62] 0x4000)\<rparr>)
      0x1000 0x3000 1 = Inl Fatal"
proof -
  let ?m = "example_map1\<lparr>heap := (heap example_map1)(0x3000 \<mapsto> key_alloc [0x61, 0x62] 0x4000)\<rparr>"
  have k1: "heap ?m 0x1000 = Some \<lparr>sds_len = length [0x61 :: byte, 0x62],
      sds_buf = [0x61, 0x62] @ [0] @ le_bytes 8 0x2000\<rparr>"
    by (simp add: example_map1_def key_alloc_def)
  have k2: "heap ?m 0x3000 = Some \<lparr>sds_len = length [0x61 :: byte, 0x62],
      sds_buf = [0x61, 0x62] @ [0] @ le_bytes 8 0x4000\<rparr>"
    by (simp add: example_map1_def key_alloc_def)
  from Hash_ObjEqual_field_only [OF k1 k2, of "\<lambda>bs seed. seed + of_nat (length bs)" 1]
  show ?thesis by simp
qed

theorem AddOrSet_fatal_witness:
  "AddOrSet example_map [0x61] [0x78] 5 = Inl (Fatal, example_map) \<and>
   (\<exists>m'. AddOrSet example_map1 [0x61, 0x62] [0x79] 0xFFFFFFFF = Inl (Fatal, m') \<and>
      heap m' = heap example_map1 \<and> entries m' = entries example_map1)"
proof -
  have "(5 :: 32 word) \<noteq> 0xFFFFFFFF" by simp
  with AddOrSet_fatal [of example_map "[0x61]" "[0x78]" 5]
  have 1: "AddOrSet example_map [0x61] [0x78] 5 = Inl (Fatal, example_map)" by blast
  have dup: "\<exists>e\<in>set (entries example_map1). \<exists>x. heap example_map1 e = Some x \<and>
      sds_len x = length [0x61 :: byte, 0x62] \<and> take (length [0x61 :: byte, 0x62]) (sds_buf x) = [0x61, 0x62]"
    by (simp add: example_map1_def key_alloc_def)
  have "2 \<le> length (avail example_map1)" "length [0x61 :: byte, 0x62] < 2 ^ 32"
    by (simp_all add: example_map1_def)
  with AddOrSet_fatal [of example_map1 "[0x61, 0x62]" "[0x79]" "0xFFFFFFFF"] example_alloc_ok(2) dup
  have "\<exists>m'. AddOrSet example_map1 [0x61, 0x62] [0x79] 0xFFFFFFFF = Inl (Fatal, m') \<and>
      heap m' = heap example_map1 \<and> entries m' = entries example_map1"
    by blast
  with 1 show ?thesis by blast
qed

end
